theory Spec2Isabelle
  imports Complex_Main "HOL-Library.Sublist"
begin

section \<open>The feature-extraction script \<^verbatim>\<open>preprocess_hubert_f0.py\<close>\<close>

text \<open>
  The script has two functions of interest: \<^verbatim>\<open>process_one\<close>, which derives up to six
  artifacts from one audio file and caches them on disk, and \<^verbatim>\<open>parallel_process\<close>,
  which cuts the list of filenames into one slice per worker.

  The signal-processing and model-inference libraries are outside the repository. The
  model keeps what \<^verbatim>\<open>process_one\<close> does around them: which library call is made
  (an event \<open>Compute\<close>), which file is saved (an event \<open>Save\<close> and an update of the file
  system), which exception ends the call, and the sampled augmentation parameters. Of the
  ways a library call can fail it keeps the two that the paths decide: loading a file that
  is not there, and saving into a directory that is not there. Floating-point numbers are
  idealised as reals.
\<close>

subsection \<open>Strings and paths\<close>

type_synonym path = string

text \<open>
  Python's \<^verbatim>\<open>s.replace(old, new)\<close>: every occurrence of \<open>old\<close>, found from left to
  right without overlap, becomes \<open>new\<close>; an empty \<open>old\<close> matches before every character
  and at the end.
\<close>

function str_replace :: "string \<Rightarrow> string \<Rightarrow> string \<Rightarrow> string" where
  "str_replace old new [] = (if old = [] then new else [])"
| "str_replace old new (c # cs) =
     (if old = [] then new @ c # str_replace old new cs
      else if prefix old (c # cs) then new @ str_replace old new (drop (length old) (c # cs))
      else c # str_replace old new cs)"
  by pat_completeness auto
termination
  by (relation "measure (\<lambda>(old, new, s). length s)") auto

definition f0_path :: "path \<Rightarrow> path" where
  "f0_path filename = filename @ ''.f0.npy''"

definition spec_path :: "path \<Rightarrow> path" where
  "spec_path filename = str_replace ''.wav'' ''.spec.pt'' filename"

definition volume_path :: "path \<Rightarrow> path" where
  "volume_path filename = filename @ ''.vol.npy''"

definition mel_path :: "path \<Rightarrow> path" where
  "mel_path filename = filename @ ''.mel.npy''"

definition aug_mel_path :: "path \<Rightarrow> path" where
  "aug_mel_path filename = filename @ ''.aug_mel.npy''"

definition aug_vol_path :: "path \<Rightarrow> path" where
  "aug_vol_path filename = filename @ ''.aug_vol.npy''"

text \<open>The six feature-extraction steps, and the path each one saves to.\<close>

datatype step = F0 | Spec | Volume | Mel | AugMel | AugVol

fun artifact_path :: "step \<Rightarrow> path \<Rightarrow> path" where
  "artifact_path F0 filename = f0_path filename"
| "artifact_path Spec filename = spec_path filename"
| "artifact_path Volume filename = volume_path filename"
| "artifact_path Mel filename = mel_path filename"
| "artifact_path AugMel filename = aug_mel_path filename"
| "artifact_path AugVol filename = aug_vol_path filename"

definition all_steps :: "step list" where
  "all_steps = [F0, Spec, Volume, Mel, AugMel, AugVol]"

text \<open>
  A filename whose only occurrence of \<^verbatim>\<open>.wav\<close> is its ending: without its last
  character the name holds no \<^verbatim>\<open>.wav\<close>.
\<close>

definition wav_only_ending :: "path \<Rightarrow> bool" where
  "wav_only_ending filename =
     (suffix ''.wav'' filename \<and> \<not> sublist ''.wav'' (butlast filename))"

text \<open>
  \<^verbatim>\<open>os.path.dirname\<close> on POSIX: the path up to and including its last slash, with the
  trailing slashes removed unless it consists of slashes only.
\<close>

definition dirname :: "path \<Rightarrow> path" where
  "dirname p =
     (let head = rev (dropWhile (\<lambda>c. c \<noteq> CHR ''/'') (rev p))
      in if \<forall>c \<in> set head. c = CHR ''/'' then head
         else rev (dropWhile (\<lambda>c. c = CHR ''/'') (rev head)))"

subsection \<open>Configuration, loaded audio, random draws\<close>

text \<open>
  \<^verbatim>\<open>hps.data.sampling_rate\<close> (the module's \<^verbatim>\<open>sampling_rate\<close> is the same value) and
  \<^verbatim>\<open>hps.model.vol_embedding\<close>.
\<close>

record hparams =
  sampling_rate :: nat
  vol_embedding :: bool

text \<open>
  What \<^verbatim>\<open>process_one\<close> reads from \<^verbatim>\<open>librosa.load\<close>: the sample rate it returns and the
  peak absolute amplitude \<^verbatim>\<open>torch.max(torch.abs(audio_norm))\<close> of the samples. Line 30
  asks for \<^verbatim>\<open>sr=sampling_rate\<close>, and \<^verbatim>\<open>librosa.load\<close> resamples to the rate it is asked
  for, so on a real call the returned rate is the target rate; the model leaves the rate
  free and statements say where they rely on it.
\<close>

record loaded =
  sr :: nat
  peak :: real

text \<open>
  The two draws of \<^verbatim>\<open>random.random()\<close> behind the two calls of \<^verbatim>\<open>random.uniform\<close>,
  which computes \<^verbatim>\<open>a + (b - a) * random()\<close>.
\<close>

record draws =
  u_vol :: real
  u_key :: real

definition uniform :: "real \<Rightarrow> real \<Rightarrow> real \<Rightarrow> real" where
  "uniform a b u = a + (b - a) * u"

definition max_amp :: "loaded \<Rightarrow> real" where
  "max_amp ld = peak ld + 1 / 100000"

definition max_shift :: "loaded \<Rightarrow> real" where
  "max_shift ld = min 1 (log 10 (1 / max_amp ld))"

definition log10_vol_shift :: "loaded \<Rightarrow> draws \<Rightarrow> real" where
  "log10_vol_shift ld rnd = uniform (- 1) (max_shift ld) (u_vol rnd)"

definition keyshift :: "draws \<Rightarrow> real" where
  "keyshift rnd = uniform (- 5) 5 (u_key rnd)"

text \<open>The peak absolute amplitude of \<^verbatim>\<open>audio_norm * (10 ** log10_vol_shift)\<close>.\<close>

definition scaled_peak :: "loaded \<Rightarrow> draws \<Rightarrow> real" where
  "scaled_peak ld rnd = peak ld * 10 powr log10_vol_shift ld rnd"

subsection \<open>File system, events, exceptions\<close>

text \<open>
  What the file system holds at a path: a directory, an audio file, or an artifact. The
  content of an artifact is kept symbolically: which extraction produced it and, for the
  augmented ones, with which sampled parameters. The empty path stands for the current
  directory.
\<close>

datatype entry =
    Directory
  | Audio
  | F0_uv
  | Spectrogram
  | Volume_env
  | Mel_spec
  | Aug_mel real real
  | Aug_vol real

datatype event = Compute step | Save step path

text \<open>
  \<open>LoadError\<close> is raised inside \<^verbatim>\<open>librosa.load\<close>, \<open>SaveError\<close> inside \<^verbatim>\<open>torch.save\<close> or
  \<^verbatim>\<open>np.save\<close> (a \<^verbatim>\<open>RuntimeError\<close> or \<^verbatim>\<open>FileNotFoundError\<close> for a missing parent
  directory), \<open>ValueError\<close> by the \<^verbatim>\<open>raise\<close> of line 45, and \<open>NameError\<close> by the interpreter
  at line 83.
\<close>

datatype error = LoadError | ValueError | SaveError | NameError

record state =
  fs :: "path \<rightharpoonup> entry"
  trace :: "event list"

text \<open>\<^verbatim>\<open>os.path.exists\<close>: true of files and of directories.\<close>

definition path_exists :: "state \<Rightarrow> path \<Rightarrow> bool" where
  "path_exists st p = (fs st p \<noteq> None)"

definition parent_exists :: "state \<Rightarrow> path \<Rightarrow> bool" where
  "parent_exists st p = (fs st (dirname p) = Some Directory)"

definition compute :: "step \<Rightarrow> state \<Rightarrow> state" where
  "compute k st = st\<lparr>trace := trace st @ [Compute k]\<rparr>"

text \<open>Saving creates the file; it raises when the directory of the path does not exist.\<close>

definition save :: "step \<Rightarrow> path \<Rightarrow> entry \<Rightarrow> state \<Rightarrow> error option \<times> state" where
  "save k p a st =
     (if parent_exists st p
      then (None, st\<lparr>fs := (fs st)(p \<mapsto> a), trace := trace st @ [Save k p]\<rparr>)
      else (Some SaveError, st))"

text \<open>Sequencing: an exception ends the call, with the state reached so far.\<close>

definition then_step ::
  "error option \<times> state \<Rightarrow> (state \<Rightarrow> error option \<times> state) \<Rightarrow> error option \<times> state" where
  "then_step r g = (case r of (None, st) \<Rightarrow> g st | (Some e, st) \<Rightarrow> (Some e, st))"

definition saved_paths :: "state \<Rightarrow> path list" where
  "saved_paths st = concat (map (\<lambda>e. case e of Save k p \<Rightarrow> [p] | Compute k \<Rightarrow> []) (trace st))"

definition computed_steps :: "state \<Rightarrow> step list" where
  "computed_steps st = concat (map (\<lambda>e. case e of Compute k \<Rightarrow> [k] | Save k p \<Rightarrow> []) (trace st))"

subsection \<open>\<^verbatim>\<open>process_one\<close>\<close>

text \<open>
  Line 30: \<^verbatim>\<open>librosa.load\<close> returns only for an audio file that is there, in a directory
  that is there.
\<close>

definition loadable :: "(path \<rightharpoonup> entry) \<Rightarrow> path \<Rightarrow> bool" where
  "loadable files filename =
     (files filename = Some Audio \<and> files (dirname filename) = Some Directory)"

text \<open>Lines 34 to 40: pitch and voicing.\<close>

definition step_f0 :: "path \<Rightarrow> state \<Rightarrow> error option \<times> state" where
  "step_f0 filename st =
     (if \<not> path_exists st (f0_path filename)
      then save F0 (f0_path filename) F0_uv (compute F0 st)
      else (None, st))"

text \<open>Lines 42 to 60: the spectrogram, with the sample-rate check inside the cache gate.\<close>

definition step_spec :: "hparams \<Rightarrow> loaded \<Rightarrow> path \<Rightarrow> state \<Rightarrow> error option \<times> state" where
  "step_spec hps ld filename st =
     (if \<not> path_exists st (spec_path filename)
      then (if sr ld \<noteq> sampling_rate hps
            then (Some ValueError, st)
            else save Spec (spec_path filename) Spectrogram (compute Spec st))
      else (None, st))"

text \<open>Lines 62 to 67: the volume envelope.\<close>

definition step_volume :: "hparams \<Rightarrow> bool \<Rightarrow> path \<Rightarrow> state \<Rightarrow> error option \<times> state" where
  "step_volume hps diff filename st =
     (if diff \<or> vol_embedding hps
      then (if \<not> path_exists st (volume_path filename)
            then save Volume (volume_path filename) Volume_env (compute Volume st)
            else (None, st))
      else (None, st))"

text \<open>Lines 70 to 74: the mel spectrogram.\<close>

definition step_mel :: "bool \<Rightarrow> path \<Rightarrow> state \<Rightarrow> error option \<times> state" where
  "step_mel mel_extractor filename st =
     (if \<not> path_exists st (mel_path filename) \<and> mel_extractor
      then save Mel (mel_path filename) Mel_spec (compute Mel st)
      else (None, st))"

text \<open>
  Lines 75 to 88: the augmented pair. \<^verbatim>\<open>aug_mel_t\<close> is assigned only under
  \<^verbatim>\<open>mel_extractor is not None\<close> and read on the next line, where Python raises for an
  unbound local. Both extractions run before either cache check; lines 85 to 88 then save
  each result unless its file exists.
\<close>

definition save_if_missing :: "step \<Rightarrow> path \<Rightarrow> entry \<Rightarrow> state \<Rightarrow> error option \<times> state" where
  "save_if_missing k p a st = (if \<not> path_exists st p then save k p a st else (None, st))"

definition step_aug :: "bool \<Rightarrow> loaded \<Rightarrow> draws \<Rightarrow> path \<Rightarrow> state \<Rightarrow> error option \<times> state" where
  "step_aug mel_extractor ld rnd filename st =
     (if \<not> mel_extractor then (Some NameError, st)
      else
        then_step
          (save_if_missing AugMel (aug_mel_path filename)
             (Aug_mel (log10_vol_shift ld rnd) (keyshift rnd))
             (compute AugVol (compute AugMel st)))
          (save_if_missing AugVol (aug_vol_path filename) (Aug_vol (log10_vol_shift ld rnd))))"

text \<open>
  The whole function. \<open>mel_extractor\<close> says whether the argument is not \<^verbatim>\<open>None\<close>; the
  arguments \<^verbatim>\<open>f0p\<close> and \<^verbatim>\<open>device\<close> only select library code. The result is the exception
  that ended the call, if any, and the state at that point.
\<close>

definition process_one ::
  "hparams \<Rightarrow> path \<Rightarrow> bool \<Rightarrow> bool \<Rightarrow> loaded \<Rightarrow> draws \<Rightarrow> (path \<rightharpoonup> entry)
     \<Rightarrow> error option \<times> state" where
  "process_one hps filename diff mel_extractor ld rnd files =
     (if \<not> loadable files filename then (Some LoadError, \<lparr>fs = files, trace = []\<rparr>)
      else
        then_step (step_f0 filename \<lparr>fs = files, trace = []\<rparr>) (\<lambda>st1.
        then_step (step_spec hps ld filename st1) (\<lambda>st2.
        then_step (step_volume hps diff filename st2) (\<lambda>st3.
        if diff
        then then_step (step_mel mel_extractor filename st3)
               (step_aug mel_extractor ld rnd filename)
        else (None, st3)))))"

subsection \<open>\<^verbatim>\<open>parallel_process\<close>\<close>

text \<open>
  Python's \<^verbatim>\<open>xs[start:end]\<close> for indices that are not negative; an \<open>end\<close> below
  \<open>start\<close> gives the empty list, and indices beyond the end are cut.
\<close>

definition slice :: "'a list \<Rightarrow> nat \<Rightarrow> nat \<Rightarrow> 'a list" where
  "slice xs start end = take (end - start) (drop start xs)"

text \<open>
  \<^verbatim>\<open>int(i * len(filenames) / num_processes)\<close>: the quotient of two integers that are
  not negative, cut to an integer.
\<close>

definition chunk_bound :: "nat \<Rightarrow> nat \<Rightarrow> nat \<Rightarrow> nat" where
  "chunk_bound n num_processes i = (i * n) div num_processes"

definition file_chunk :: "'a list \<Rightarrow> nat \<Rightarrow> nat \<Rightarrow> 'a list" where
  "file_chunk filenames num_processes i =
     slice filenames (chunk_bound (length filenames) num_processes i)
                     (chunk_bound (length filenames) num_processes (i + 1))"

text \<open>The chunks submitted by the loop over \<^verbatim>\<open>range(num_processes)\<close>, in order.\<close>

definition parallel_process :: "'a list \<Rightarrow> nat \<Rightarrow> 'a list list" where
  "parallel_process filenames num_processes =
     map (file_chunk filenames num_processes) [0..<num_processes]"

subsection \<open>Predicates used in the proofs\<close>

text \<open>
  Nothing is left to save: the call cannot load its input, or every file it would save is
  on disk already, or it stops at the spectrogram step (on the sample-rate check or on a
  save into a missing directory) before saving anything further.
\<close>

definition settled :: "hparams \<Rightarrow> path \<Rightarrow> bool \<Rightarrow> bool \<Rightarrow> loaded \<Rightarrow> (path \<rightharpoonup> entry) \<Rightarrow> bool" where
  "settled hps filename diff mel_extractor ld files =
     (loadable files filename \<longrightarrow>
      files (f0_path filename) \<noteq> None \<and>
      (if files (spec_path filename) = None
       then sr ld \<noteq> sampling_rate hps \<or> files (dirname (spec_path filename)) \<noteq> Some Directory
       else ((diff \<or> vol_embedding hps) \<longrightarrow> files (volume_path filename) \<noteq> None) \<and>
            (diff \<and> mel_extractor \<longrightarrow>
               files (mel_path filename) \<noteq> None \<and> files (aug_mel_path filename) \<noteq> None \<and>
               files (aug_vol_path filename) \<noteq> None)))"

text \<open>
  The state reached from the file system \<open>files\<close> respects the cache: existing entries are
  untouched, no directory appears, every save went to the step's own path and to a path that
  did not exist, and the four gated extractions ran only for a missing file.
\<close>

definition cache_respected :: "(path \<rightharpoonup> entry) \<Rightarrow> path \<Rightarrow> state \<Rightarrow> bool" where
  "cache_respected files filename st =
     ((\<forall>p. files p \<noteq> None \<longrightarrow> fs st p = files p) \<and>
      (\<forall>p. fs st p = Some Directory \<longrightarrow> files p = Some Directory) \<and>
      (\<forall>k p. Save k p \<in> set (trace st) \<longrightarrow> p = artifact_path k filename \<and> files p = None) \<and>
      (\<forall>k. Compute k \<in> set (trace st) \<longrightarrow> k \<in> {F0, Spec, Volume, Mel} \<longrightarrow>
           files (artifact_path k filename) = None))"

subsection \<open>Sample inputs\<close>

text \<open>
  A configuration at 44100 Hz without volume embedding, audio loaded at the target rate and
  at half of it, two draws in the middle of the unit interval, a speaker directory that
  holds \<^verbatim>\<open>a.wav\<close> and nothing else, the same directory with all six artifacts of
  \<^verbatim>\<open>a.wav\<close>, a speaker directory whose own name holds \<^verbatim>\<open>.wav\<close>, and a directory with
  two audio files whose names hold \<^verbatim>\<open>.wav\<close> or \<^verbatim>\<open>.spec.pt\<close> before the ending.
\<close>

definition hps_44k :: hparams where
  "hps_44k = \<lparr>sampling_rate = 44100, vol_embedding = False\<rparr>"

definition audio_44k :: loaded where
  "audio_44k = \<lparr>sr = 44100, peak = 1 / 2\<rparr>"

definition audio_22k :: loaded where
  "audio_22k = \<lparr>sr = 22050, peak = 1 / 2\<rparr>"

definition draws_mid :: draws where
  "draws_mid = \<lparr>u_vol = 1 / 2, u_key = 1 / 2\<rparr>"

definition only_input :: "path \<rightharpoonup> entry" where
  "only_input = [''spk'' \<mapsto> Directory, ''spk/a.wav'' \<mapsto> Audio]"

definition all_cached :: "path \<rightharpoonup> entry" where
  "all_cached = [''spk'' \<mapsto> Directory, ''spk/a.wav'' \<mapsto> Audio,
     ''spk/a.wav.f0.npy'' \<mapsto> F0_uv, ''spk/a.spec.pt'' \<mapsto> Spectrogram,
     ''spk/a.wav.vol.npy'' \<mapsto> Volume_env, ''spk/a.wav.mel.npy'' \<mapsto> Mel_spec,
     ''spk/a.wav.aug_mel.npy'' \<mapsto> Aug_mel 0 0, ''spk/a.wav.aug_vol.npy'' \<mapsto> Aug_vol 0]"

definition dotted_dir :: "path \<rightharpoonup> entry" where
  "dotted_dir = [''x.wav'' \<mapsto> Directory, ''x.wav/a.wav'' \<mapsto> Audio]"

definition two_inputs :: "path \<rightharpoonup> entry" where
  "two_inputs = [''spk'' \<mapsto> Directory, ''spk/a.wav.wav'' \<mapsto> Audio,
     ''spk/a.spec.pt.wav'' \<mapsto> Audio]"

section \<open>Static chunking\<close>

lemma chunk_bound_mono:
  "i \<le> j \<Longrightarrow> chunk_bound n p i \<le> chunk_bound n p j"
  by (simp add: chunk_bound_def div_le_mono)

lemma chunk_bound_0: "chunk_bound n p 0 = 0"
  by (simp add: chunk_bound_def)

lemma chunk_bound_last: "0 < p \<Longrightarrow> chunk_bound n p p = n"
  by (simp add: chunk_bound_def)

lemma take_append_slice:
  "a \<le> b \<Longrightarrow> take a xs @ slice xs a b = take b xs"
proof -
  assume ab: "a \<le> b"
  have "take b xs = take (a + (b - a)) xs" using ab by simp
  also have "\<dots> = take a xs @ take (b - a) (drop a xs)" by (rule take_add)
  finally show ?thesis by (simp add: slice_def)
qed

lemma concat_chunks_prefix:
  "concat (map (file_chunk xs p) [0..<m]) = take (chunk_bound (length xs) p m) xs"
proof (induction m)
  case 0
  show ?case by (simp add: chunk_bound_0)
next
  case (Suc m)
  have "chunk_bound (length xs) p m \<le> chunk_bound (length xs) p (Suc m)"
    by (rule chunk_bound_mono) simp
  then show ?case
    using Suc by (simp add: file_chunk_def take_append_slice)
qed

lemma chunk_index_exists:
  assumes "0 < p" "k < n"
  shows "\<exists>i<p. chunk_bound n p i \<le> k \<and> k < chunk_bound n p (i + 1)"
proof -
  have "\<exists>i. i < m \<and> chunk_bound n p i \<le> k \<and> k < chunk_bound n p (i + 1)"
    if "k < chunk_bound n p m" for m
    using that
  proof (induction m)
    case 0
    then show ?case by (simp add: chunk_bound_0)
  next
    case (Suc m)
    show ?case
    proof (cases "k < chunk_bound n p m")
      case True
      with Suc.IH obtain i where "i < m" "chunk_bound n p i \<le> k" "k < chunk_bound n p (i + 1)"
        by blast
      then show ?thesis using less_Suc_eq by auto
    next
      case False
      with Suc.prems show ?thesis by (intro exI [of _ m]) simp
    qed
  qed
  from this [of p] assms show ?thesis by (auto simp: chunk_bound_last)
qed

lemma chunk_index_unique:
  assumes "chunk_bound n p i \<le> k" "k < chunk_bound n p (i + 1)"
    and "chunk_bound n p j \<le> k" "k < chunk_bound n p (j + 1)"
  shows "i = j"
proof (rule ccontr)
  assume "i \<noteq> j"
  then consider "i + 1 \<le> j" | "j + 1 \<le> i" by linarith
  then show False
  proof cases
    case 1
    from chunk_bound_mono [OF this, of n p] assms show False by simp
  next
    case 2
    from chunk_bound_mono [OF this, of n p] assms show False by simp
  qed
qed

text \<open>
  Claim C1. For every list of filenames and every number of workers \<open>p \<ge> 1\<close>, the chunks
  built by \<^verbatim>\<open>parallel_process\<close> are the contiguous slices between consecutive bounds
  \<open>floor(i*n/p)\<close>; there are \<open>p\<close> of them; a chunk ends no later than any later chunk
  starts, so they are pairwise disjoint; their concatenation in order is the whole list;
  and every position of the list lies in exactly one chunk.
\<close>

theorem parallel_process_partition:
  assumes "1 \<le> p"
  shows "length (parallel_process filenames p) = p
    \<and> (\<forall>i<p. parallel_process filenames p ! i
          = take ((i + 1) * length filenames div p - i * length filenames div p)
              (drop (i * length filenames div p) filenames))
    \<and> (\<forall>i j. i < j \<and> j < p \<longrightarrow>
          (i + 1) * length filenames div p \<le> j * length filenames div p)
    \<and> concat (parallel_process filenames p) = filenames
    \<and> (\<forall>k<length filenames. \<exists>!i. i < p
          \<and> i * length filenames div p \<le> k \<and> k < (i + 1) * length filenames div p)"
proof (intro conjI)
  let ?n = "length filenames"
  show "length (parallel_process filenames p) = p"
    by (simp add: parallel_process_def)
  show "\<forall>i<p. parallel_process filenames p ! i
          = take ((i + 1) * ?n div p - i * ?n div p) (drop (i * ?n div p) filenames)"
    by (simp add: parallel_process_def file_chunk_def slice_def chunk_bound_def)
  show "\<forall>i j. i < j \<and> j < p \<longrightarrow> (i + 1) * ?n div p \<le> j * ?n div p"
  proof (intro allI impI)
    fix i j :: nat
    assume "i < j \<and> j < p"
    then have "i + 1 \<le> j" by simp
    from chunk_bound_mono [OF this, of ?n p] show "(i + 1) * ?n div p \<le> j * ?n div p"
      by (simp add: chunk_bound_def)
  qed
  show "concat (parallel_process filenames p) = filenames"
    using assms by (simp add: parallel_process_def concat_chunks_prefix chunk_bound_last)
  show "\<forall>k<?n. \<exists>!i. i < p \<and> i * ?n div p \<le> k \<and> k < (i + 1) * ?n div p"
  proof (intro allI impI)
    fix k
    assume k: "k < ?n"
    from chunk_index_exists [of p k ?n] assms k
    obtain i where i: "i < p" "chunk_bound ?n p i \<le> k" "k < chunk_bound ?n p (i + 1)"
      by auto
    show "\<exists>!i. i < p \<and> i * ?n div p \<le> k \<and> k < (i + 1) * ?n div p"
    proof (rule ex1I [of _ i])
      show "i < p \<and> i * ?n div p \<le> k \<and> k < (i + 1) * ?n div p"
        using i by (simp add: chunk_bound_def)
    next
      fix j
      assume "j < p \<and> j * ?n div p \<le> k \<and> k < (j + 1) * ?n div p"
      then show "j = i"
        using i chunk_index_unique [of ?n p j k i] by (simp add: chunk_bound_def)
    qed
  qed
qed

theorem parallel_process_partition_witness:
  "parallel_process [''a.wav'', ''b.wav'', ''c.wav'', ''d.wav'', ''e.wav''] 3
     = [[''a.wav''], [''b.wav'', ''c.wav''], [''d.wav'', ''e.wav'']]
   \<and> concat (parallel_process [''a.wav'', ''b.wav'', ''c.wav'', ''d.wav'', ''e.wav''] 3)
     = [''a.wav'', ''b.wav'', ''c.wav'', ''d.wav'', ''e.wav'']"
proof -
  have "(1::nat) \<le> 3" by simp
  from parallel_process_partition [OF this, of "[''a.wav'', ''b.wav'', ''c.wav'', ''d.wav'', ''e.wav'']"]
  have c: "concat (parallel_process [''a.wav'', ''b.wav'', ''c.wav'', ''d.wav'', ''e.wav''] 3)
     = [''a.wav'', ''b.wav'', ''c.wav'', ''d.wav'', ''e.wav'']"
    by blast
  have "parallel_process [''a.wav'', ''b.wav'', ''c.wav'', ''d.wav'', ''e.wav''] 3
     = [[''a.wav''], [''b.wav'', ''c.wav''], [''d.wav'', ''e.wav'']]"
    by (simp add: parallel_process_def file_chunk_def slice_def chunk_bound_def upt_rec)
  with c show ?thesis by simp
qed

section \<open>Replacing the extension\<close>

lemma str_replace_hit:
  "old \<noteq> [] \<Longrightarrow> prefix old (c # cs) \<Longrightarrow>
   str_replace old new (c # cs) = new @ str_replace old new (drop (length old) (c # cs))"
  by simp

lemma str_replace_miss:
  "old \<noteq> [] \<Longrightarrow> \<not> prefix old (c # cs) \<Longrightarrow>
   str_replace old new (c # cs) = c # str_replace old new cs"
  by simp

lemma prefix_append_shorter:
  "prefix xs (ys @ zs) \<Longrightarrow> length xs \<le> length ys \<Longrightarrow> prefix xs ys"
  by (auto simp: prefix_append)

lemma str_replace_no_occ:
  "old \<noteq> [] \<Longrightarrow> \<not> sublist old s \<Longrightarrow> str_replace old new s = s"
  by (induction s) (auto simp: sublist_Cons_right)

lemma str_replace_wav_differs:
  assumes "prefix ''.wav'' (c # cs)"
  shows "str_replace ''.wav'' ''.spec.pt'' (c # cs) \<noteq> c # cs @ s"
proof -
  from assms obtain r where r: "c # cs = ''.wav'' @ r" by (auto simp: prefix_def)
  have "str_replace ''.wav'' ''.spec.pt'' (c # cs) ! 1 = CHR ''s''"
    using str_replace_hit [OF _ assms, of "''.spec.pt''"] by simp
  moreover have "(c # cs @ s) ! 1 = CHR ''w''"
    using r by auto
  ultimately show ?thesis by auto
qed

lemma str_replace_neq_append:
  "s \<noteq> [] \<Longrightarrow> str_replace ''.wav'' ''.spec.pt'' f \<noteq> f @ s"
proof (induction f)
  case Nil then show ?case by simp
next
  case (Cons c cs)
  show ?case
  proof (cases "prefix ''.wav'' (c # cs)")
    case True
    from str_replace_wav_differs [OF this, of s] show ?thesis by simp
  next
    case False
    have "str_replace ''.wav'' ''.spec.pt'' (c # cs) = c # str_replace ''.wav'' ''.spec.pt'' cs"
      by (rule str_replace_miss [OF _ False]) simp
    with Cons show ?thesis by simp
  qed
qed

lemma str_replace_neq_self:
  "suffix ''.wav'' f \<Longrightarrow> str_replace ''.wav'' ''.spec.pt'' f \<noteq> f"
proof (induction f)
  case Nil then show ?case by simp
next
  case (Cons c cs)
  show ?case
  proof (cases "prefix ''.wav'' (c # cs)")
    case True
    from str_replace_wav_differs [OF this, of "[]"] show ?thesis by simp
  next
    case False
    have "suffix ''.wav'' cs" using Cons.prems False 
      by (auto simp: suffix_Cons)
    moreover have "str_replace ''.wav'' ''.spec.pt'' (c # cs) = c # str_replace ''.wav'' ''.spec.pt'' cs"
      by (rule str_replace_miss [OF _ False]) simp
    ultimately show ?thesis using Cons.IH by simp
  qed
qed

lemma str_replace_stem:
  "\<not> sublist ''.wav'' (stem @ ''.wa'') \<Longrightarrow>
   str_replace ''.wav'' ''.spec.pt'' (stem @ ''.wav'') = stem @ ''.spec.pt''"
proof (induction stem)
  case Nil then show ?case by simp
next
  case (Cons c cs)
  have np: "\<not> prefix ''.wav'' (c # cs @ ''.wa'')" and ns: "\<not> sublist ''.wav'' (cs @ ''.wa'')"
    using Cons.prems by (auto simp: sublist_Cons_right)
  have "\<not> prefix ''.wav'' (c # cs @ ''.wav'')"
  proof
    assume a: "prefix ''.wav'' (c # cs @ ''.wav'')"
    have eq: "c # cs @ ''.wav'' = (c # cs @ ''.wa'') @ ''v''" by simp
    have "prefix ''.wav'' (c # cs @ ''.wa'')"
      by (rule prefix_append_shorter [OF a [unfolded eq]]) simp
    with np show False by blast
  qed
  then have "str_replace ''.wav'' ''.spec.pt'' (c # cs @ ''.wav'')
      = c # str_replace ''.wav'' ''.spec.pt'' (cs @ ''.wav'')"
    by (intro str_replace_miss) simp_all
  with Cons.IH ns show ?case by simp
qed

lemma wav_only_ending_stem:
  assumes "wav_only_ending f"
  shows "f = take (length f - 4) f @ ''.wav''"
    and "spec_path f = take (length f - 4) f @ ''.spec.pt''"
proof -
  from assms obtain stem where f: "f = stem @ ''.wav''"
    by (auto simp: wav_only_ending_def suffix_def)
  then show 1: "f = take (length f - 4) f @ ''.wav''" by simp
  from assms f have "\<not> sublist ''.wav'' (stem @ ''.wa'')"
    by (simp add: wav_only_ending_def butlast_append)
  then show "spec_path f = take (length f - 4) f @ ''.spec.pt''"
    using f by (simp add: spec_path_def str_replace_stem)
qed

section \<open>The six artifact paths\<close>

text \<open>
  The six paths of one filename are pairwise distinct, and so are the paths of two filenames
  whose only \<^verbatim>\<open>.wav\<close> is the ending. Paths that end in different suffixes are told apart
  from their last characters, hence the reversal.
\<close>

lemmas path_defs = f0_path_def spec_path_def volume_path_def mel_path_def aug_mel_path_def
  aug_vol_path_def

lemma append_eq_rev: "f1 @ s1 = f2 @ s2 \<Longrightarrow> rev s1 @ rev f1 = rev s2 @ rev f2"
  by (drule arg_cong [where f = rev]) simp

lemma artifact_path_same_file:
  "artifact_path k1 f = artifact_path k2 f \<Longrightarrow> k1 = k2"
  using str_replace_neq_append [of "''.f0.npy''" f] str_replace_neq_append [of "''.vol.npy''" f]
    str_replace_neq_append [of "''.mel.npy''" f] str_replace_neq_append [of "''.aug_mel.npy''" f]
    str_replace_neq_append [of "''.aug_vol.npy''" f]
  by (cases k1; cases k2)
     (simp_all add: f0_path_def spec_path_def volume_path_def mel_path_def aug_mel_path_def aug_vol_path_def)

lemma artifact_path_inj:
  assumes "wav_only_ending f1" "wav_only_ending f2"
    and "artifact_path k1 f1 = artifact_path k2 f2"
  shows "k1 = k2 \<and> f1 = f2"
proof -
  obtain s1 s2 where f: "f1 = s1 @ ''.wav''" "f2 = s2 @ ''.wav''"
    using wav_only_ending_stem(1) [OF assms(1)] wav_only_ending_stem(1) [OF assms(2)] by blast
  have sp: "spec_path f1 = s1 @ ''.spec.pt''" "spec_path f2 = s2 @ ''.spec.pt''"
    using wav_only_ending_stem(2) [OF assms(1)] wav_only_ending_stem(2) [OF assms(2)] f by simp_all
  show ?thesis
    using assms(3) sp
    by (cases k1; cases k2)
       (auto simp: f f0_path_def volume_path_def mel_path_def aug_mel_path_def aug_vol_path_def
             dest!: append_eq_rev)
qed

lemma paths_distinct:
  "f0_path f \<noteq> spec_path f" "spec_path f \<noteq> f0_path f"
  "spec_path f \<noteq> volume_path f" "volume_path f \<noteq> spec_path f"
  "spec_path f \<noteq> mel_path f" "mel_path f \<noteq> spec_path f"
  "spec_path f \<noteq> aug_mel_path f" "aug_mel_path f \<noteq> spec_path f"
  "spec_path f \<noteq> aug_vol_path f" "aug_vol_path f \<noteq> spec_path f"
  "f0_path f \<noteq> volume_path f" "volume_path f \<noteq> f0_path f"
  "f0_path f \<noteq> mel_path f" "mel_path f \<noteq> f0_path f"
  "f0_path f \<noteq> aug_mel_path f" "aug_mel_path f \<noteq> f0_path f"
  "f0_path f \<noteq> aug_vol_path f" "aug_vol_path f \<noteq> f0_path f"
  "volume_path f \<noteq> mel_path f" "mel_path f \<noteq> volume_path f"
  "volume_path f \<noteq> aug_mel_path f" "aug_mel_path f \<noteq> volume_path f"
  "volume_path f \<noteq> aug_vol_path f" "aug_vol_path f \<noteq> volume_path f"
  "mel_path f \<noteq> aug_mel_path f" "aug_mel_path f \<noteq> mel_path f"
  "mel_path f \<noteq> aug_vol_path f" "aug_vol_path f \<noteq> mel_path f"
  "aug_mel_path f \<noteq> aug_vol_path f" "aug_vol_path f \<noteq> aug_mel_path f"
  using artifact_path_same_file [of F0 f Spec] artifact_path_same_file [of Spec f Volume]
    artifact_path_same_file [of Spec f Mel] artifact_path_same_file [of Spec f AugMel]
    artifact_path_same_file [of Spec f AugVol]
  by (auto simp: f0_path_def volume_path_def mel_path_def aug_mel_path_def aug_vol_path_def)

lemma artifact_path_neq_input:
  assumes "suffix ''.wav'' f"
  shows "artifact_path k f \<noteq> f"
  using str_replace_neq_self [OF assms]
  by (cases k) (simp_all add: path_defs)

lemma appended_paths_inj:
  assumes "k \<noteq> Spec" "k' \<noteq> Spec" "artifact_path k f = artifact_path k' f'"
  shows "k = k' \<and> f = f'"
  using assms by (cases k; cases k') (auto simp: path_defs dest!: append_eq_rev)

text \<open>
  The artifacts lie in the directory of the input: always for the five appended paths, and
  for the spectrogram path when the only \<^verbatim>\<open>.wav\<close> of the filename is its ending.
\<close>

lemma dirname_append:
  assumes "CHR ''/'' \<notin> set s"
  shows "dirname (p @ s) = dirname p"
proof -
  have "dropWhile (\<lambda>c. c \<noteq> CHR ''/'') (rev s @ rev p) = dropWhile (\<lambda>c. c \<noteq> CHR ''/'') (rev p)"
    using assms by (intro dropWhile_append2) auto
  then show ?thesis by (simp add: dirname_def)
qed

lemma dirname_artifact:
  "k \<noteq> Spec \<Longrightarrow> dirname (artifact_path k f) = dirname f"
  by (cases k) (simp_all add: path_defs dirname_append)

lemma dirname_spec:
  assumes "wav_only_ending f"
  shows "dirname (spec_path f) = dirname f"
proof -
  let ?stem = "take (length f - 4) f"
  have "dirname (?stem @ ''.spec.pt'') = dirname ?stem" by (rule dirname_append) simp
  moreover have "dirname (?stem @ ''.wav'') = dirname ?stem" by (rule dirname_append) simp
  ultimately show ?thesis
    using wav_only_ending_stem [OF assms] by simp
qed

section \<open>The steps of \<^verbatim>\<open>process_one\<close>\<close>

text \<open>
  Collections of defining equations, for unfolding a run on concrete inputs.
\<close>

lemmas demo_defs = hps_44k_def audio_44k_def audio_22k_def draws_mid_def only_input_def
  all_cached_def dotted_dir_def two_inputs_def

lemmas step_unfold = step_f0_def step_spec_def step_volume_def step_mel_def
  save_def compute_def path_exists_def parent_exists_def Let_def

lemmas run_defs = process_one_def loadable_def then_step_def step_f0_def step_spec_def
  step_volume_def step_mel_def step_aug_def save_if_missing_def save_def compute_def
  path_exists_def parent_exists_def dirname_def path_defs

text \<open>
  Sequencing, and \<^verbatim>\<open>process_one\<close> as the chain of its steps: the state it ends in is
  the start state or the state after one of the five steps.
\<close>

lemma then_step_fst: "fst (then_step r g) = (if fst r = None then fst (g (snd r)) else fst r)"
  by (cases r) (auto simp: then_step_def split: option.splits)

lemma then_step_snd: "snd (then_step r g) = (if fst r = None then snd (g (snd r)) else snd r)"
  by (cases r) (auto simp: then_step_def split: option.splits)

lemma then_step_eq: "then_step r g = (if fst r = None then g (snd r) else r)"
  by (cases r) (auto simp: then_step_def split: option.splits)

lemma process_one_steps:
  "process_one hps f diff mel ld rnd files =
     (let st0 = \<lparr>fs = files, trace = []\<rparr>;
          r1 = step_f0 f st0;
          r2 = step_spec hps ld f (snd r1);
          r3 = step_volume hps diff f (snd r2);
          r4 = step_mel mel f (snd r3);
          r5 = step_aug mel ld rnd f (snd r4)
      in if \<not> loadable files f then (Some LoadError, st0)
         else if fst r1 \<noteq> None then r1
         else if fst r2 \<noteq> None then r2
         else if fst r3 \<noteq> None then r3
         else if \<not> diff then (None, snd r3)
         else if fst r4 \<noteq> None then r4
         else r5)"
  by (simp add: process_one_def then_step_eq Let_def prod_eq_iff)

lemma process_one_final:
  "snd (process_one hps f diff mel ld rnd files) \<in>
     {\<lparr>fs = files, trace = []\<rparr>,
      snd (step_f0 f \<lparr>fs = files, trace = []\<rparr>),
      snd (step_spec hps ld f (snd (step_f0 f \<lparr>fs = files, trace = []\<rparr>))),
      snd (step_volume hps diff f (snd (step_spec hps ld f (snd (step_f0 f \<lparr>fs = files, trace = []\<rparr>))))),
      snd (step_mel mel f (snd (step_volume hps diff f (snd (step_spec hps ld f
        (snd (step_f0 f \<lparr>fs = files, trace = []\<rparr>))))))),
      snd (step_aug mel ld rnd f (snd (step_mel mel f (snd (step_volume hps diff f
        (snd (step_spec hps ld f (snd (step_f0 f \<lparr>fs = files, trace = []\<rparr>)))))))))}"
  unfolding process_one_steps Let_def by (cases diff) simp_all

lemma process_one_invariant:
  assumes "P \<lparr>fs = files, trace = []\<rparr>"
    and "\<And>st. P st \<Longrightarrow> P (snd (step_f0 f st))"
    and "\<And>st. P st \<Longrightarrow> P (snd (step_spec hps ld f st))"
    and "\<And>st. P st \<Longrightarrow> P (snd (step_volume hps diff f st))"
    and "\<And>st. P st \<Longrightarrow> P (snd (step_mel mel f st))"
    and "\<And>st. P st \<Longrightarrow> P (snd (step_aug mel ld rnd f st))"
  shows "P (snd (process_one hps f diff mel ld rnd files))"
proof -
  let ?st0 = "\<lparr>fs = files, trace = []\<rparr>"
  let ?r1 = "step_f0 f ?st0"
  let ?r2 = "step_spec hps ld f (snd ?r1)"
  let ?r3 = "step_volume hps diff f (snd ?r2)"
  let ?r4 = "step_mel mel f (snd ?r3)"
  let ?r5 = "step_aug mel ld rnd f (snd ?r4)"
  have 1: "P (snd ?r1)" using assms(1) by (rule assms(2))
  have 2: "P (snd ?r2)" using 1 by (rule assms(3))
  have 3: "P (snd ?r3)" using 2 by (rule assms(4))
  have 4: "P (snd ?r4)" using 3 by (rule assms(5))
  have 5: "P (snd ?r5)" using 4 by (rule assms(6))
  from process_one_final [of hps f diff mel ld rnd files] assms(1) 1 2 3 4 5
  show ?thesis by auto
qed

text \<open>A save, and a save behind its cache check.\<close>

lemma save_keeps: "fs st p \<noteq> None \<Longrightarrow> fs st q = None \<Longrightarrow> fs (snd (save k q a st)) p = fs st p"
  by (auto simp: save_def)

lemma save_if_missing_keeps:
  "fs st p \<noteq> None \<Longrightarrow> fs (snd (save_if_missing k q a st)) p = fs st p"
  by (auto simp: save_if_missing_def save_def path_exists_def)

lemma step_aug_snd:
  "snd (step_aug mel ld rnd f st) =
     (if \<not> mel then st
      else snd (then_step
          (save_if_missing AugMel (aug_mel_path f)
             (Aug_mel (log10_vol_shift ld rnd) (keyshift rnd))
             (compute AugVol (compute AugMel st)))
          (save_if_missing AugVol (aug_vol_path f) (Aug_vol (log10_vol_shift ld rnd)))))"
  by (simp add: step_aug_def)

text \<open>Each step keeps every entry that exists.\<close>

lemma step_f0_keeps: "fs st p \<noteq> None \<Longrightarrow> fs (snd (step_f0 f st)) p = fs st p"
  by (auto simp: step_unfold)

lemma step_spec_keeps: "fs st p \<noteq> None \<Longrightarrow> fs (snd (step_spec hps ld f st)) p = fs st p"
  by (auto simp: step_unfold)

lemma step_volume_keeps: "fs st p \<noteq> None \<Longrightarrow> fs (snd (step_volume hps diff f st)) p = fs st p"
  by (auto simp: step_unfold)

lemma step_mel_keeps: "fs st p \<noteq> None \<Longrightarrow> fs (snd (step_mel mel f st)) p = fs st p"
  by (auto simp: step_unfold)

lemma step_aug_keeps:
  assumes "fs st p \<noteq> None"
  shows "fs (snd (step_aug mel ld rnd f st)) p = fs st p"
proof -
  let ?st2 = "compute AugVol (compute AugMel st)"
  have 2: "fs ?st2 p = fs st p" by (simp add: compute_def)
  with assms show ?thesis
    by (simp add: step_aug_snd then_step_snd save_if_missing_keeps)
qed

text \<open>The cache invariant, its parts, and the steps that keep it.\<close>

lemma cache_respectedI:
  assumes 1: "\<And>p. files p \<noteq> None \<Longrightarrow> fs st p = files p"
    and 2: "\<And>p. fs st p = Some Directory \<Longrightarrow> files p = Some Directory"
    and 3: "\<And>k p. Save k p \<in> set (trace st) \<Longrightarrow> p = artifact_path k f \<and> files p = None"
    and 4: "\<And>k. Compute k \<in> set (trace st) \<Longrightarrow> k \<in> {F0, Spec, Volume, Mel} \<Longrightarrow>
           files (artifact_path k f) = None"
  shows "cache_respected files f st"
proof -
  have "\<forall>p. files p \<noteq> None \<longrightarrow> fs st p = files p"
  proof (intro allI impI)
    fix p assume "files p \<noteq> None" then show "fs st p = files p" by (rule 1)
  qed
  moreover have "\<forall>p. fs st p = Some Directory \<longrightarrow> files p = Some Directory"
  proof (intro allI impI)
    fix p assume "fs st p = Some Directory" then show "files p = Some Directory" by (rule 2)
  qed
  moreover have "\<forall>k p. Save k p \<in> set (trace st) \<longrightarrow> p = artifact_path k f \<and> files p = None"
  proof (intro allI impI)
    fix k p assume "Save k p \<in> set (trace st)"
    then show "p = artifact_path k f \<and> files p = None" by (rule 3)
  qed
  moreover have "\<forall>k. Compute k \<in> set (trace st) \<longrightarrow> k \<in> {F0, Spec, Volume, Mel} \<longrightarrow>
           files (artifact_path k f) = None"
  proof (intro allI impI)
    fix k assume "Compute k \<in> set (trace st)" "k \<in> {F0, Spec, Volume, Mel}"
    then show "files (artifact_path k f) = None" by (rule 4)
  qed
  ultimately show ?thesis unfolding cache_respected_def by (intro conjI)
qed

lemma cache_kept:
  assumes "cache_respected files f st" "files p \<noteq> None"
  shows "fs st p = files p"
proof -
  from assms(1) have "\<forall>p. files p \<noteq> None \<longrightarrow> fs st p = files p"
    unfolding cache_respected_def by (rule conjunct1)
  from this [rule_format, OF assms(2)] show ?thesis .
qed

lemma cache_dirs:
  assumes "cache_respected files f st" "fs st p = Some Directory"
  shows "files p = Some Directory"
proof -
  from assms(1) have "\<forall>p. fs st p = Some Directory \<longrightarrow> files p = Some Directory"
    unfolding cache_respected_def by (rule conjunct1 [OF conjunct2])
  from this [rule_format, OF assms(2)] show ?thesis .
qed

lemma cache_saves:
  assumes "cache_respected files f st" "Save k p \<in> set (trace st)"
  shows "p = artifact_path k f \<and> files p = None"
proof -
  from assms(1)
  have "\<forall>k p. Save k p \<in> set (trace st) \<longrightarrow> p = artifact_path k f \<and> files p = None"
    unfolding cache_respected_def by (rule conjunct1 [OF conjunct2 [OF conjunct2]])
  from this [rule_format, OF assms(2)] show ?thesis .
qed

lemma cache_computes:
  assumes "cache_respected files f st" "Compute k \<in> set (trace st)" "k \<in> {F0, Spec, Volume, Mel}"
  shows "files (artifact_path k f) = None"
proof -
  from assms(1) have "\<forall>k. Compute k \<in> set (trace st) \<longrightarrow> k \<in> {F0, Spec, Volume, Mel} \<longrightarrow>
      files (artifact_path k f) = None"
    unfolding cache_respected_def by (rule conjunct2 [OF conjunct2 [OF conjunct2]])
  from this [rule_format, OF assms(2) assms(3)] show ?thesis .
qed

lemma cache_respected_init: "cache_respected files f \<lparr>fs = files, trace = []\<rparr>"
  by (simp add: cache_respected_def)

lemma cache_respected_absent:
  assumes "cache_respected files f st" "fs st p = None"
  shows "files p = None"
proof (rule ccontr)
  assume "files p \<noteq> None"
  with assms(1) have "fs st p = files p" by (rule cache_kept)
  with assms(2) \<open>files p \<noteq> None\<close> show False by simp
qed

lemma save_cache:
  assumes inv: "cache_respected files f st" and absent: "fs st (artifact_path k f) = None"
    and a: "a \<noteq> Directory"
  shows "cache_respected files f (snd (save k (artifact_path k f) a st))"
proof (cases "parent_exists st (artifact_path k f)")
  case False
  with inv show ?thesis by (simp add: save_def)
next
  case True
  let ?q = "artifact_path k f"
  let ?st' = "st\<lparr>fs := (fs st)(?q \<mapsto> a), trace := trace st @ [Save k ?q]\<rparr>"
  have none: "files ?q = None" using inv absent by (rule cache_respected_absent)
  have "cache_respected files f ?st'"
  proof (rule cache_respectedI)
    fix p assume p: "files p \<noteq> None"
    with none have "p \<noteq> ?q" by auto
    moreover from inv p have "fs st p = files p" by (rule cache_kept)
    ultimately show "fs ?st' p = files p" by simp
  next
    fix p assume p: "fs ?st' p = Some Directory"
    with a have "p \<noteq> ?q" by auto
    with p have "fs st p = Some Directory" by simp
    with inv show "files p = Some Directory" by (rule cache_dirs)
  next
    fix k' p assume "Save k' p \<in> set (trace ?st')"
    then consider "Save k' p \<in> set (trace st)" | "k' = k" "p = ?q" by auto
    then show "p = artifact_path k' f \<and> files p = None"
    proof cases
      case 1
      with inv show ?thesis by (rule cache_saves)
    next
      case 2
      with none show ?thesis by simp
    qed
  next
    fix k' assume "Compute k' \<in> set (trace ?st')" and m: "k' \<in> {F0, Spec, Volume, Mel}"
    then have "Compute k' \<in> set (trace st)" by simp
    with inv show "files (artifact_path k' f) = None" using m by (rule cache_computes)
  qed
  moreover have "snd (save k ?q a st) = ?st'" using True by (simp add: save_def)
  ultimately show ?thesis by simp
qed

lemma compute_cache:
  assumes inv: "cache_respected files f st"
    and k: "k \<in> {F0, Spec, Volume, Mel} \<Longrightarrow> files (artifact_path k f) = None"
  shows "cache_respected files f (compute k st)"
proof (rule cache_respectedI)
  fix p assume "files p \<noteq> None"
  with inv have "fs st p = files p" by (rule cache_kept)
  then show "fs (compute k st) p = files p" by (simp add: compute_def)
next
  fix p assume "fs (compute k st) p = Some Directory"
  then have "fs st p = Some Directory" by (simp add: compute_def)
  with inv show "files p = Some Directory" by (rule cache_dirs)
next
  fix k' p assume "Save k' p \<in> set (trace (compute k st))"
  then have "Save k' p \<in> set (trace st)" by (simp add: compute_def)
  with inv show "p = artifact_path k' f \<and> files p = None" by (rule cache_saves)
next
  fix k' assume c: "Compute k' \<in> set (trace (compute k st))" and m: "k' \<in> {F0, Spec, Volume, Mel}"
  from c consider "Compute k' \<in> set (trace st)" | "k' = k" by (auto simp: compute_def)
  then show "files (artifact_path k' f) = None"
  proof cases
    case 1
    with inv show ?thesis using m by (rule cache_computes)
  next
    case 2
    with k m show ?thesis by simp
  qed
qed

lemma gated_step_cache:
  assumes inv: "cache_respected files f st" and a: "a \<noteq> Directory"
    and q: "q = artifact_path k f"
  shows "cache_respected files f
    (snd (if \<not> path_exists st q then save k q a (compute k st) else (None, st)))"
proof (cases "fs st q = None")
  case False
  with inv show ?thesis by (simp add: path_exists_def)
next
  case True
  have "files (artifact_path k f) = None" using inv True unfolding q by (rule cache_respected_absent)
  then have "cache_respected files f (compute k st)" using inv by (intro compute_cache)
  moreover have "fs (compute k st) (artifact_path k f) = None"
    using True by (simp add: compute_def q)
  ultimately have "cache_respected files f (snd (save k (artifact_path k f) a (compute k st)))"
    using a by (rule save_cache)
  with True show ?thesis by (simp add: path_exists_def q)
qed

lemma step_f0_cache:
  assumes "cache_respected files f st"
  shows "cache_respected files f (snd (step_f0 f st))"
  unfolding step_f0_def using assms by (rule gated_step_cache) simp_all

lemma step_spec_cache:
  assumes "cache_respected files f st"
  shows "cache_respected files f (snd (step_spec hps ld f st))"
proof (cases "sr ld \<noteq> sampling_rate hps")
  case True
  with assms show ?thesis by (simp add: step_spec_def)
next
  case False
  have "cache_respected files f
      (snd (if \<not> path_exists st (spec_path f)
            then save Spec (spec_path f) Spectrogram (compute Spec st) else (None, st)))"
    using assms by (rule gated_step_cache) simp_all
  moreover have "step_spec hps ld f st =
      (if \<not> path_exists st (spec_path f)
       then save Spec (spec_path f) Spectrogram (compute Spec st) else (None, st))"
    using False by (simp add: step_spec_def)
  ultimately show ?thesis by (simp only:)
qed

lemma step_volume_cache:
  assumes "cache_respected files f st"
  shows "cache_respected files f (snd (step_volume hps diff f st))"
proof (cases "diff \<or> vol_embedding hps")
  case False
  with assms show ?thesis by (simp add: step_volume_def)
next
  case True
  have "cache_respected files f
      (snd (if \<not> path_exists st (volume_path f)
            then save Volume (volume_path f) Volume_env (compute Volume st) else (None, st)))"
    using assms by (rule gated_step_cache) simp_all
  moreover have "step_volume hps diff f st =
      (if \<not> path_exists st (volume_path f)
       then save Volume (volume_path f) Volume_env (compute Volume st) else (None, st))"
    using True by (simp add: step_volume_def)
  ultimately show ?thesis by (simp only:)
qed

lemma step_mel_cache:
  assumes "cache_respected files f st"
  shows "cache_respected files f (snd (step_mel mel f st))"
proof (cases mel)
  case False
  with assms show ?thesis by (simp add: step_mel_def)
next
  case True
  have "cache_respected files f
      (snd (if \<not> path_exists st (mel_path f)
            then save Mel (mel_path f) Mel_spec (compute Mel st) else (None, st)))"
    using assms by (rule gated_step_cache) simp_all
  moreover have "step_mel mel f st =
      (if \<not> path_exists st (mel_path f)
       then save Mel (mel_path f) Mel_spec (compute Mel st) else (None, st))"
    using True by (simp add: step_mel_def)
  ultimately show ?thesis by (simp only:)
qed

lemma save_if_missing_cache:
  assumes inv: "cache_respected files f st" and a: "a \<noteq> Directory"
  shows "cache_respected files f (snd (save_if_missing k (artifact_path k f) a st))"
proof (cases "fs st (artifact_path k f) = None")
  case True
  with inv have "cache_respected files f (snd (save k (artifact_path k f) a st))"
    using a by (rule save_cache)
  with True show ?thesis by (simp add: save_if_missing_def path_exists_def)
next
  case False
  with inv show ?thesis by (simp add: save_if_missing_def path_exists_def)
qed

lemma step_aug_cache:
  assumes "cache_respected files f st"
  shows "cache_respected files f (snd (step_aug mel ld rnd f st))"
proof (cases mel)
  case False
  with assms show ?thesis by (simp add: step_aug_def)
next
  case True
  let ?st2 = "compute AugVol (compute AugMel st)"
  let ?r3 = "save_if_missing AugMel (artifact_path AugMel f)
      (Aug_mel (log10_vol_shift ld rnd) (keyshift rnd)) ?st2"
  let ?r4 = "save_if_missing AugVol (artifact_path AugVol f) (Aug_vol (log10_vol_shift ld rnd)) (snd ?r3)"
  have "cache_respected files f (compute AugMel st)" using assms by (rule compute_cache) simp
  then have 2: "cache_respected files f ?st2" by (rule compute_cache) simp
  then have 3: "cache_respected files f (snd ?r3)" by (rule save_if_missing_cache) simp
  then have 4: "cache_respected files f (snd ?r4)" by (rule save_if_missing_cache) simp
  have "snd (step_aug mel ld rnd f st) = (if fst ?r3 = None then snd ?r4 else snd ?r3)"
    using True by (simp add: step_aug_def then_step_snd)
  with 3 4 show ?thesis by (cases "fst ?r3 = None") simp_all
qed

lemma process_one_cache:
  "cache_respected files f (snd (process_one hps f diff mel ld rnd files))"
  by (rule process_one_invariant)
     (simp_all add: cache_respected_init step_f0_cache step_spec_cache
        step_volume_cache step_mel_cache step_aug_cache)

text \<open>Which steps can raise.\<close>

lemma gated_save_ok:
  assumes "fs st (dirname q) = Some Directory"
  shows "fst (if \<not> path_exists st q then save k q a (compute k' st) else (None, st)) = None"
  using assms by (simp add: save_def parent_exists_def compute_def)

lemma step_f0_ok: "fs st (dirname f) = Some Directory \<Longrightarrow> fst (step_f0 f st) = None"
  unfolding step_f0_def by (rule gated_save_ok) (simp add: f0_path_def dirname_append)

lemma step_volume_ok:
  assumes "fs st (dirname f) = Some Directory"
  shows "fst (step_volume hps diff f st) = None"
proof -
  have "fst (if \<not> path_exists st (volume_path f)
      then save Volume (volume_path f) Volume_env (compute Volume st) else (None, st)) = None"
    using assms by (intro gated_save_ok) (simp add: volume_path_def dirname_append)
  then show ?thesis by (auto simp: step_volume_def split: if_splits)
qed

lemma step_mel_ok:
  assumes "fs st (dirname f) = Some Directory"
  shows "fst (step_mel mel f st) = None"
proof -
  have "fst (if \<not> path_exists st (mel_path f)
      then save Mel (mel_path f) Mel_spec (compute Mel st) else (None, st)) = None"
    using assms by (intro gated_save_ok) (simp add: mel_path_def dirname_append)
  then show ?thesis by (auto simp: step_mel_def split: if_splits)
qed

lemma save_if_missing_ok:
  "fs st (dirname q) = Some Directory \<Longrightarrow> fst (save_if_missing k q a st) = None"
  by (simp add: save_if_missing_def save_def parent_exists_def)

lemma step_aug_error:
  assumes "fs st (dirname f) = Some Directory"
  shows "fst (step_aug mel ld rnd f st) = (if mel then None else Some NameError)"
proof (cases mel)
  case False
  then show ?thesis by (simp add: step_aug_def)
next
  case True
  let ?st2 = "compute AugVol (compute AugMel st)"
  let ?r3 = "save_if_missing AugMel (aug_mel_path f)
      (Aug_mel (log10_vol_shift ld rnd) (keyshift rnd)) ?st2"
  have d2: "fs ?st2 (dirname f) = Some Directory" using assms by (simp add: compute_def)
  then have "fs ?st2 (dirname (aug_mel_path f)) = Some Directory"
    by (simp add: aug_mel_path_def dirname_append)
  then have 3: "fst ?r3 = None" by (rule save_if_missing_ok)
  have "fs (snd ?r3) (dirname f) = fs ?st2 (dirname f)"
    using d2 by (intro save_if_missing_keeps) simp
  with d2 have "fs (snd ?r3) (dirname (aug_vol_path f)) = Some Directory"
    by (simp add: aug_vol_path_def dirname_append)
  then have "fst (save_if_missing AugVol (aug_vol_path f) (Aug_vol (log10_vol_shift ld rnd)) (snd ?r3)) = None"
    by (rule save_if_missing_ok)
  with 3 True show ?thesis by (simp add: step_aug_def then_step_fst)
qed

lemma step_spec_error:
  "fst (step_spec hps ld f st) =
     (if fs st (spec_path f) \<noteq> None then None
      else if sr ld \<noteq> sampling_rate hps then Some ValueError
      else if fs st (dirname (spec_path f)) = Some Directory then None
      else Some SaveError)"
  by (simp add: step_spec_def save_def parent_exists_def compute_def path_exists_def)

lemma step_f0_spec: "fs (snd (step_f0 f st)) (spec_path f) = fs st (spec_path f)"
  by (simp add: step_f0_def save_def compute_def path_exists_def paths_distinct)

lemma step_f0_dirs:
  assumes "files p = Some Directory"
  shows "fs (snd (step_f0 f \<lparr>fs = files, trace = []\<rparr>)) p = Some Directory"
  using step_f0_keeps [of "\<lparr>fs = files, trace = []\<rparr>" p f] assms by simp

lemma step_f0_no_new_dirs:
  assumes "fs (snd (step_f0 f \<lparr>fs = files, trace = []\<rparr>)) p = Some Directory"
  shows "files p = Some Directory"
  using step_f0_cache [OF cache_respected_init, of files f] assms by (rule cache_dirs)

lemma process_one_error:
  "fst (process_one hps f diff mel ld rnd files) =
     (if \<not> loadable files f then Some LoadError
      else if files (spec_path f) = None \<and> sr ld \<noteq> sampling_rate hps then Some ValueError
      else if files (spec_path f) = None \<and> files (dirname (spec_path f)) \<noteq> Some Directory
        then Some SaveError
      else if diff \<and> \<not> mel then Some NameError
      else None)"
proof (cases "loadable files f")
  case False
  then show ?thesis by (simp add: process_one_steps)
next
  case True
  let ?st0 = "\<lparr>fs = files, trace = []\<rparr>"
  let ?r1 = "step_f0 f ?st0"
  let ?r2 = "step_spec hps ld f (snd ?r1)"
  let ?r3 = "step_volume hps diff f (snd ?r2)"
  let ?r4 = "step_mel mel f (snd ?r3)"
  let ?r5 = "step_aug mel ld rnd f (snd ?r4)"
  have d0: "fs ?st0 (dirname f) = Some Directory" using True by (simp add: loadable_def)
  have e1: "fst ?r1 = None" using d0 by (rule step_f0_ok)
  have d1: "fs (snd ?r1) (dirname f) = Some Directory" using d0 by (simp add: step_f0_keeps)
  have d2: "fs (snd ?r2) (dirname f) = Some Directory" using d1 by (simp add: step_spec_keeps)
  have e3: "fst ?r3 = None" using d2 by (rule step_volume_ok)
  have d3: "fs (snd ?r3) (dirname f) = Some Directory" using d2 by (simp add: step_volume_keeps)
  have e4: "fst ?r4 = None" using d3 by (rule step_mel_ok)
  have d4: "fs (snd ?r4) (dirname f) = Some Directory" using d3 by (simp add: step_mel_keeps)
  have e5: "fst ?r5 = (if mel then None else Some NameError)" using d4 by (rule step_aug_error)
  have dir: "fs (snd ?r1) (dirname (spec_path f)) = Some Directory
      \<longleftrightarrow> files (dirname (spec_path f)) = Some Directory"
    using step_f0_dirs step_f0_no_new_dirs by blast
  have e2: "fst ?r2 =
     (if files (spec_path f) \<noteq> None then None
      else if sr ld \<noteq> sampling_rate hps then Some ValueError
      else if files (dirname (spec_path f)) = Some Directory then None
      else Some SaveError)"
    by (simp only: step_spec_error step_f0_spec dir) simp
  define a where "a = fst ?r2"
  define b where "b = fst ?r5"
  have run: "fst (process_one hps f diff mel ld rnd files) =
      (if a \<noteq> None then a else if \<not> diff then None else b)"
  proof (cases diff)
    case False
    with True e1 e3 show ?thesis unfolding a_def b_def
      by (simp add: process_one_steps Let_def)
  next
    case diff: True
    with True e1 e3 e4 show ?thesis unfolding a_def b_def
      by (simp add: process_one_steps Let_def)
  qed
  have a: "a = (if files (spec_path f) \<noteq> None then None
      else if sr ld \<noteq> sampling_rate hps then Some ValueError
      else if files (dirname (spec_path f)) = Some Directory then None
      else Some SaveError)"
    unfolding a_def by (rule e2)
  have b: "b = (if mel then None else Some NameError)"
    unfolding b_def by (rule e5)
  show ?thesis using True by (simp add: run a b)
qed

text \<open>For an input that loads, only the spectrogram step and the augmentation step can raise.\<close>

lemma process_one_loaded:
  assumes "loadable files f"
  shows "process_one hps f diff mel ld rnd files =
     (if fst (step_spec hps ld f (snd (step_f0 f \<lparr>fs = files, trace = []\<rparr>))) \<noteq> None
      then step_spec hps ld f (snd (step_f0 f \<lparr>fs = files, trace = []\<rparr>))
      else if \<not> diff
      then (None, snd (step_volume hps diff f
             (snd (step_spec hps ld f (snd (step_f0 f \<lparr>fs = files, trace = []\<rparr>))))))
      else step_aug mel ld rnd f (snd (step_mel mel f (snd (step_volume hps diff f
             (snd (step_spec hps ld f (snd (step_f0 f \<lparr>fs = files, trace = []\<rparr>)))))))))"
proof -
  let ?st0 = "\<lparr>fs = files, trace = []\<rparr>"
  let ?r1 = "step_f0 f ?st0"
  let ?r2 = "step_spec hps ld f (snd ?r1)"
  let ?r3 = "step_volume hps diff f (snd ?r2)"
  let ?r4 = "step_mel mel f (snd ?r3)"
  have d0: "fs ?st0 (dirname f) = Some Directory" using assms by (simp add: loadable_def)
  have e1: "fst ?r1 = None" using d0 by (rule step_f0_ok)
  have d1: "fs (snd ?r1) (dirname f) = Some Directory" using d0 by (simp add: step_f0_keeps)
  have d2: "fs (snd ?r2) (dirname f) = Some Directory" using d1 by (simp add: step_spec_keeps)
  have e3: "fst ?r3 = None" using d2 by (rule step_volume_ok)
  have d3: "fs (snd ?r3) (dirname f) = Some Directory" using d2 by (simp add: step_volume_keeps)
  have e4: "fst ?r4 = None" using d3 by (rule step_mel_ok)
  show ?thesis
  proof (cases diff)
    case False
    with assms e1 e3 show ?thesis by (simp add: process_one_steps Let_def)
  next
    case True
    with assms e1 e3 e4 show ?thesis by (simp add: process_one_steps Let_def)
  qed
qed

text \<open>What each step leaves on disk when it does not raise.\<close>

lemma gated_save_post:
  "fst (if \<not> path_exists st q then save k q a (compute k' st) else (None, st)) = None \<Longrightarrow>
   fs (snd (if \<not> path_exists st q then save k q a (compute k' st) else (None, st))) q \<noteq> None"
  by (auto simp: save_def path_exists_def compute_def split: if_splits)

lemma step_f0_post: "fst (step_f0 f st) = None \<Longrightarrow> fs (snd (step_f0 f st)) (f0_path f) \<noteq> None"
  unfolding step_f0_def by (rule gated_save_post)

lemma step_spec_post:
  "fst (step_spec hps ld f st) = None \<Longrightarrow> fs (snd (step_spec hps ld f st)) (spec_path f) \<noteq> None"
  by (auto simp: step_spec_def save_def path_exists_def compute_def split: if_splits)

lemma step_volume_post:
  "fst (step_volume hps diff f st) = None \<Longrightarrow> diff \<or> vol_embedding hps \<Longrightarrow>
   fs (snd (step_volume hps diff f st)) (volume_path f) \<noteq> None"
  by (auto simp: step_volume_def save_def path_exists_def compute_def split: if_splits)

lemma step_mel_post:
  "fst (step_mel mel f st) = None \<Longrightarrow> mel \<Longrightarrow> fs (snd (step_mel mel f st)) (mel_path f) \<noteq> None"
  by (auto simp: step_mel_def save_def path_exists_def compute_def split: if_splits)

lemma save_if_missing_post:
  "fst (save_if_missing k q a st) = None \<Longrightarrow> fs (snd (save_if_missing k q a st)) q \<noteq> None"
  by (auto simp: save_if_missing_def save_def path_exists_def split: if_splits)

lemma step_aug_post:
  assumes "fst (step_aug mel ld rnd f st) = None"
  shows "fs (snd (step_aug mel ld rnd f st)) (aug_mel_path f) \<noteq> None
     \<and> fs (snd (step_aug mel ld rnd f st)) (aug_vol_path f) \<noteq> None"
proof -
  let ?st2 = "compute AugVol (compute AugMel st)"
  let ?r3 = "save_if_missing AugMel (aug_mel_path f)
      (Aug_mel (log10_vol_shift ld rnd) (keyshift rnd)) ?st2"
  let ?r4 = "save_if_missing AugVol (aug_vol_path f) (Aug_vol (log10_vol_shift ld rnd)) (snd ?r3)"
  from assms have mel: mel by (auto simp: step_aug_def split: if_splits)
  with assms have e: "fst ?r3 = None" "fst ?r4 = None"
    by (auto simp: step_aug_def then_step_fst split: if_splits)
  have s: "snd (step_aug mel ld rnd f st) = snd ?r4"
    using mel e by (simp add: step_aug_def then_step_snd)
  have 3: "fs (snd ?r3) (aug_mel_path f) \<noteq> None" using e(1) by (rule save_if_missing_post)
  then have "fs (snd ?r4) (aug_mel_path f) = fs (snd ?r3) (aug_mel_path f)"
    by (rule save_if_missing_keeps)
  with 3 have 4: "fs (snd ?r4) (aug_mel_path f) \<noteq> None" by simp
  have 5: "fs (snd ?r4) (aug_vol_path f) \<noteq> None" using e(2) by (rule save_if_missing_post)
  from 4 5 show ?thesis by (simp only: s) simp
qed

text \<open>A step whose file exists changes nothing on disk and saves nothing.\<close>

lemma step_f0_skip: "fs st (f0_path f) \<noteq> None \<Longrightarrow> step_f0 f st = (None, st)"
  by (simp add: step_f0_def path_exists_def)

lemma step_spec_skip: "fs st (spec_path f) \<noteq> None \<Longrightarrow> step_spec hps ld f st = (None, st)"
  by (simp add: step_spec_def path_exists_def)

lemma step_spec_stop:
  assumes "fs st (spec_path f) = None"
    and "sr ld \<noteq> sampling_rate hps \<or> fs st (dirname (spec_path f)) \<noteq> Some Directory"
  shows "fst (step_spec hps ld f st) \<noteq> None
    \<and> fs (snd (step_spec hps ld f st)) = fs st
    \<and> saved_paths (snd (step_spec hps ld f st)) = saved_paths st"
  using assms
  by (auto simp: step_spec_def path_exists_def save_def parent_exists_def compute_def saved_paths_def)

lemma step_volume_skip:
  "(diff \<or> vol_embedding hps \<longrightarrow> fs st (volume_path f) \<noteq> None) \<Longrightarrow>
   step_volume hps diff f st = (None, st)"
  by (auto simp: step_volume_def path_exists_def)

lemma step_mel_skip: "(mel \<longrightarrow> fs st (mel_path f) \<noteq> None) \<Longrightarrow> step_mel mel f st = (None, st)"
  by (auto simp: step_mel_def path_exists_def)

lemma step_aug_skip:
  assumes "mel \<longrightarrow> fs st (aug_mel_path f) \<noteq> None \<and> fs st (aug_vol_path f) \<noteq> None"
  shows "fs (snd (step_aug mel ld rnd f st)) = fs st
     \<and> saved_paths (snd (step_aug mel ld rnd f st)) = saved_paths st"
proof (cases mel)
  case False
  then show ?thesis by (simp add: step_aug_def)
next
  case True
  let ?st2 = "compute AugVol (compute AugMel st)"
  have "save_if_missing AugMel (aug_mel_path f)
      (Aug_mel (log10_vol_shift ld rnd) (keyshift rnd)) ?st2 = (None, ?st2)"
    using assms True by (simp add: save_if_missing_def path_exists_def compute_def)
  moreover have "save_if_missing AugVol (aug_vol_path f) (Aug_vol (log10_vol_shift ld rnd)) ?st2
      = (None, ?st2)"
    using assms True by (simp add: save_if_missing_def path_exists_def compute_def)
  ultimately have "step_aug mel ld rnd f st = (None, ?st2)"
    using True by (simp add: step_aug_def then_step_eq)
  then show ?thesis by (simp add: compute_def saved_paths_def)
qed

text \<open>
  A settled file system is left as it is, and every run ends in a settled one.
\<close>

lemma settled_no_writes:
  assumes "settled hps f diff mel ld files"
  shows "fs (snd (process_one hps f diff mel ld rnd files)) = files
    \<and> saved_paths (snd (process_one hps f diff mel ld rnd files)) = []"
proof (cases "loadable files f")
  case False
  then show ?thesis by (simp add: process_one_steps saved_paths_def)
next
  case True
  let ?st0 = "\<lparr>fs = files, trace = []\<rparr>"
  have empty: "saved_paths ?st0 = []" by (simp add: saved_paths_def)
  have f0: "step_f0 f ?st0 = (None, ?st0)"
    using assms True by (intro step_f0_skip) (simp add: settled_def)
  show ?thesis
  proof (cases "files (spec_path f) = None")
    case none: True
    with assms True
    have "sr ld \<noteq> sampling_rate hps \<or> fs ?st0 (dirname (spec_path f)) \<noteq> Some Directory"
      by (simp add: settled_def)
    with none have "fst (step_spec hps ld f ?st0) \<noteq> None
      \<and> fs (snd (step_spec hps ld f ?st0)) = fs ?st0
      \<and> saved_paths (snd (step_spec hps ld f ?st0)) = saved_paths ?st0"
      by (intro step_spec_stop) simp_all
    with empty show ?thesis by (simp add: process_one_loaded [OF True] f0)
  next
    case False
    then have sp: "step_spec hps ld f ?st0 = (None, ?st0)"
      by (intro step_spec_skip) simp
    have vol: "step_volume hps diff f ?st0 = (None, ?st0)"
      using assms True False by (intro step_volume_skip) (simp add: settled_def)
    show ?thesis
    proof (cases diff)
      case False
      have "process_one hps f diff mel ld rnd files = (None, ?st0)"
        using vol False by (simp add: process_one_loaded [OF True] f0 sp)
      with empty show ?thesis by simp
    next
      case diff: True
      have mel: "step_mel mel f ?st0 = (None, ?st0)"
        using assms True False diff by (intro step_mel_skip) (simp add: settled_def)
      have aug: "fs (snd (step_aug mel ld rnd f ?st0)) = fs ?st0
          \<and> saved_paths (snd (step_aug mel ld rnd f ?st0)) = saved_paths ?st0"
        using assms True False diff by (intro step_aug_skip) (simp add: settled_def)
      have "process_one hps f diff mel ld rnd files = step_aug mel ld rnd f ?st0"
        using vol mel diff by (simp add: process_one_loaded [OF True] f0 sp)
      with aug empty show ?thesis by simp
    qed
  qed
qed

lemma process_one_keeps:
  "files p \<noteq> None \<Longrightarrow> fs (snd (process_one hps f diff mel ld rnd files)) p = files p"
  using process_one_cache [of files f hps diff mel ld rnd] by (rule cache_kept)

lemma process_one_settles:
  "settled hps f diff mel ld (fs (snd (process_one hps f diff mel ld rnd files)))"
proof (cases "loadable files f")
  case False
  then show ?thesis by (simp add: process_one_steps settled_def)
next
  case True
  let ?st0 = "\<lparr>fs = files, trace = []\<rparr>"
  let ?r1 = "step_f0 f ?st0"
  let ?r2 = "step_spec hps ld f (snd ?r1)"
  let ?r3 = "step_volume hps diff f (snd ?r2)"
  let ?r4 = "step_mel mel f (snd ?r3)"
  let ?r5 = "step_aug mel ld rnd f (snd ?r4)"
  let ?final = "snd (process_one hps f diff mel ld rnd files)"
  have d0: "fs ?st0 (dirname f) = Some Directory" using True by (simp add: loadable_def)
  have e1: "fst ?r1 = None" using d0 by (rule step_f0_ok)
  have d1: "fs (snd ?r1) (dirname f) = Some Directory" using d0 by (simp add: step_f0_keeps)
  have d2: "fs (snd ?r2) (dirname f) = Some Directory" using d1 by (simp add: step_spec_keeps)
  have e3: "fst ?r3 = None" using d2 by (rule step_volume_ok)
  have d3: "fs (snd ?r3) (dirname f) = Some Directory" using d2 by (simp add: step_volume_keeps)
  have e4: "fst ?r4 = None" using d3 by (rule step_mel_ok)
  have a1: "fs (snd ?r1) (f0_path f) \<noteq> None" using e1 by (rule step_f0_post)
  have a2: "fs (snd ?r2) (f0_path f) \<noteq> None" using a1 by (simp add: step_spec_keeps)
  show ?thesis
  proof (cases "fst ?r2 = None")
    case False
    then have fin: "?final = snd ?r2" by (simp add: process_one_loaded [OF True])
    from False have none1: "fs (snd ?r1) (spec_path f) = None"
      by (simp add: step_spec_error split: if_splits)
    then have none: "files (spec_path f) = None" by (simp add: step_f0_spec)
    from False none1
    have stop: "sr ld \<noteq> sampling_rate hps \<or> fs (snd ?r1) (dirname (spec_path f)) \<noteq> Some Directory"
      by (auto simp: step_spec_error split: if_splits)
    then have same: "fs (snd ?r2) = fs (snd ?r1)"
      using step_spec_stop [OF none1, of ld hps] by simp
    have "fs ?final (spec_path f) = None" using none1 by (simp add: fin same)
    moreover have "fs ?final (f0_path f) \<noteq> None" using a1 by (simp add: fin same)
    moreover have "sr ld \<noteq> sampling_rate hps \<or> fs ?final (dirname (spec_path f)) \<noteq> Some Directory"
      using stop by (simp add: fin same)
    ultimately show ?thesis by (simp add: settled_def)
  next
    case ok: True
    have b2: "fs (snd ?r2) (spec_path f) \<noteq> None" using ok by (rule step_spec_post)
    have a3: "fs (snd ?r3) (f0_path f) \<noteq> None" using a2 by (simp add: step_volume_keeps)
    have b3: "fs (snd ?r3) (spec_path f) \<noteq> None" using b2 by (simp add: step_volume_keeps)
    have c3: "diff \<or> vol_embedding hps \<Longrightarrow> fs (snd ?r3) (volume_path f) \<noteq> None"
      using e3 by (rule step_volume_post)
    show ?thesis
    proof (cases diff)
      case False
      with ok have "?final = snd ?r3" by (simp add: process_one_loaded [OF True])
      with False a3 b3 c3 show ?thesis by (auto simp: settled_def)
    next
      case diff: True
      with ok have fin: "?final = snd ?r5" by (simp add: process_one_loaded [OF True])
      have a4: "fs (snd ?r4) (f0_path f) \<noteq> None" using a3 by (simp add: step_mel_keeps)
      have b4: "fs (snd ?r4) (spec_path f) \<noteq> None" using b3 by (simp add: step_mel_keeps)
      have c4: "fs (snd ?r4) (volume_path f) \<noteq> None" using c3 diff by (simp add: step_mel_keeps)
      have d4: "mel \<Longrightarrow> fs (snd ?r4) (mel_path f) \<noteq> None" using e4 by (rule step_mel_post)
      have dd4: "fs (snd ?r4) (dirname f) = Some Directory" using d3 by (simp add: step_mel_keeps)
      have a5: "fs (snd ?r5) (f0_path f) \<noteq> None" using a4 by (simp add: step_aug_keeps)
      have b5: "fs (snd ?r5) (spec_path f) \<noteq> None" using b4 by (simp add: step_aug_keeps)
      have c5: "fs (snd ?r5) (volume_path f) \<noteq> None" using c4 by (simp add: step_aug_keeps)
      have d5: "mel \<Longrightarrow> fs (snd ?r5) (mel_path f) \<noteq> None" using d4 by (simp add: step_aug_keeps)
      have "fst ?r5 = None" if mel
        using step_aug_error [OF dd4, of mel ld rnd] that by simp
      then have e5: "mel \<Longrightarrow> fs (snd ?r5) (aug_mel_path f) \<noteq> None
          \<and> fs (snd ?r5) (aug_vol_path f) \<noteq> None"
        by (rule step_aug_post)
      from a5 b5 c5 d5 e5 show ?thesis
        unfolding fin by (auto simp: settled_def)
    qed
  qed
qed

text \<open>A run on a file with no artifact yet, and the number of saves in any run.\<close>

lemma fresh_run:
  assumes load: "loadable files f" and wav: "wav_only_ending f"
    and fresh: "\<forall>k \<in> set all_steps. files (artifact_path k f) = None"
    and rate: "sr ld = sampling_rate hps"
  shows "saved_paths (snd (process_one hps f diff mel ld rnd files))
      = [f0_path f, spec_path f] @ (if diff \<or> vol_embedding hps then [volume_path f] else [])
        @ (if diff \<and> mel then [mel_path f, aug_mel_path f, aug_vol_path f] else [])"
    and "computed_steps (snd (process_one hps f diff mel ld rnd files))
      = [F0, Spec] @ (if diff \<or> vol_embedding hps then [Volume] else [])
        @ (if diff \<and> mel then [Mel, AugMel, AugVol] else [])"
proof -
  have dir: "files (dirname f) = Some Directory" using load by (simp add: loadable_def)
  have none: "files (f0_path f) = None" "files (spec_path f) = None" "files (volume_path f) = None"
    "files (mel_path f) = None" "files (aug_mel_path f) = None" "files (aug_vol_path f) = None"
    using fresh by (simp_all add: all_steps_def)
  have ne: "f0_path f \<noteq> dirname f" "spec_path f \<noteq> dirname f" "volume_path f \<noteq> dirname f"
    "mel_path f \<noteq> dirname f" "aug_mel_path f \<noteq> dirname f" "aug_vol_path f \<noteq> dirname f"
    using none dir by auto
  have par: "dirname (f0_path f) = dirname f" "dirname (spec_path f) = dirname f"
    "dirname (volume_path f) = dirname f" "dirname (mel_path f) = dirname f"
    "dirname (aug_mel_path f) = dirname f" "dirname (aug_vol_path f) = dirname f"
    using dirname_artifact [of F0 f] dirname_artifact [of Volume f] dirname_artifact [of Mel f]
      dirname_artifact [of AugMel f] dirname_artifact [of AugVol f] dirname_spec [OF wav]
    by simp_all
  note unfold = process_one_def then_step_def step_f0_def step_spec_def step_volume_def
    step_mel_def step_aug_def save_if_missing_def save_def compute_def path_exists_def
    parent_exists_def
  show "saved_paths (snd (process_one hps f diff mel ld rnd files))
      = [f0_path f, spec_path f] @ (if diff \<or> vol_embedding hps then [volume_path f] else [])
        @ (if diff \<and> mel then [mel_path f, aug_mel_path f, aug_vol_path f] else [])"
    using load rate
    by (simp add: unfold par dir none ne ne [symmetric] paths_distinct saved_paths_def)
  show "computed_steps (snd (process_one hps f diff mel ld rnd files))
      = [F0, Spec] @ (if diff \<or> vol_embedding hps then [Volume] else [])
        @ (if diff \<and> mel then [Mel, AugMel, AugVol] else [])"
    using load rate
    by (simp add: unfold par dir none ne ne [symmetric] paths_distinct computed_steps_def)
qed

lemma save_count: "length (saved_paths (snd (save k q a st))) \<le> length (saved_paths st) + 1"
  by (simp add: save_def saved_paths_def)

lemma step_f0_count: "length (saved_paths (snd (step_f0 f st))) \<le> length (saved_paths st) + 1"
  by (simp add: step_f0_def save_def compute_def saved_paths_def)

lemma step_spec_count:
  "length (saved_paths (snd (step_spec hps ld f st))) \<le> length (saved_paths st) + 1"
  by (simp add: step_spec_def save_def compute_def saved_paths_def)

lemma step_volume_count:
  "length (saved_paths (snd (step_volume hps diff f st))) \<le> length (saved_paths st) + 1"
  by (simp add: step_volume_def save_def compute_def saved_paths_def)

lemma step_mel_count:
  "length (saved_paths (snd (step_mel mel f st))) \<le> length (saved_paths st) + 1"
  by (simp add: step_mel_def save_def compute_def saved_paths_def)

lemma save_if_missing_count:
  "length (saved_paths (snd (save_if_missing k q a st))) \<le> length (saved_paths st) + 1"
  by (simp add: save_if_missing_def save_def saved_paths_def)

lemma step_aug_count:
  "length (saved_paths (snd (step_aug mel ld rnd f st))) \<le> length (saved_paths st) + 2"
proof -
  let ?st2 = "compute AugVol (compute AugMel st)"
  let ?r3 = "save_if_missing AugMel (aug_mel_path f)
      (Aug_mel (log10_vol_shift ld rnd) (keyshift rnd)) ?st2"
  let ?r4 = "save_if_missing AugVol (aug_vol_path f) (Aug_vol (log10_vol_shift ld rnd)) (snd ?r3)"
  have 2: "saved_paths ?st2 = saved_paths st" by (simp add: compute_def saved_paths_def)
  have "length (saved_paths (snd ?r3)) \<le> length (saved_paths ?st2) + 1"
    by (rule save_if_missing_count)
  with 2 have 3: "length (saved_paths (snd ?r3)) \<le> length (saved_paths st) + 1" by simp
  have "length (saved_paths (snd ?r4)) \<le> length (saved_paths (snd ?r3)) + 1"
    by (rule save_if_missing_count)
  with 3 have 4: "length (saved_paths (snd ?r4)) \<le> length (saved_paths st) + 2" by simp
  from 3 4 show ?thesis by (simp add: step_aug_snd then_step_snd)
qed

lemma process_one_count:
  "length (saved_paths (snd (process_one hps f diff mel ld rnd files))) \<le> 6"
proof -
  let ?st0 = "\<lparr>fs = files, trace = []\<rparr>"
  let ?st1 = "snd (step_f0 f ?st0)"
  let ?st2 = "snd (step_spec hps ld f ?st1)"
  let ?st3 = "snd (step_volume hps diff f ?st2)"
  let ?st4 = "snd (step_mel mel f ?st3)"
  let ?st5 = "snd (step_aug mel ld rnd f ?st4)"
  have 0: "length (saved_paths ?st0) = 0" by (simp add: saved_paths_def)
  have 1: "length (saved_paths ?st1) \<le> 1" using step_f0_count [of f ?st0] 0 by simp
  have 2: "length (saved_paths ?st2) \<le> 2" using step_spec_count [of hps ld f ?st1] 1 by simp
  have 3: "length (saved_paths ?st3) \<le> 3" using step_volume_count [of hps diff f ?st2] 2 by simp
  have 4: "length (saved_paths ?st4) \<le> 4" using step_mel_count [of mel f ?st3] 3 by simp
  have 5: "length (saved_paths ?st5) \<le> 6" using step_aug_count [of mel ld rnd f ?st4] 4 by simp
  from process_one_final [of hps f diff mel ld rnd files] 0 1 2 3 4 5
  show ?thesis by auto
qed

text \<open>Events and frame of the first three steps.\<close>

lemma step_f0_events:
  "set (trace (snd (step_f0 f st))) \<subseteq> set (trace st) \<union> {Compute F0, Save F0 (f0_path f)}"
  by (auto simp: step_f0_def save_def compute_def)

lemma step_spec_events:
  "set (trace (snd (step_spec hps ld f st)))
     \<subseteq> set (trace st) \<union> {Compute Spec, Save Spec (spec_path f)}"
  by (auto simp: step_spec_def save_def compute_def)

lemma step_volume_events:
  "set (trace (snd (step_volume hps diff f st)))
     \<subseteq> set (trace st) \<union> (if diff \<or> vol_embedding hps
                           then {Compute Volume, Save Volume (volume_path f)} else {})"
  by (auto simp: step_volume_def save_def compute_def)

lemma step_f0_frame: "p \<noteq> f0_path f \<Longrightarrow> fs (snd (step_f0 f st)) p = fs st p"
  by (simp add: step_f0_def save_def compute_def)

lemma step_spec_frame: "p \<noteq> spec_path f \<Longrightarrow> fs (snd (step_spec hps ld f st)) p = fs st p"
  by (simp add: step_spec_def save_def compute_def)

lemma step_volume_frame:
  "p \<noteq> volume_path f \<or> \<not> (diff \<or> vol_embedding hps) \<Longrightarrow>
   fs (snd (step_volume hps diff f st)) p = fs st p"
  by (auto simp: step_volume_def save_def compute_def)

lemma process_one_final_no_diff:
  assumes "\<not> diff"
  shows "snd (process_one hps f diff mel ld rnd files) \<in>
     {\<lparr>fs = files, trace = []\<rparr>,
      snd (step_f0 f \<lparr>fs = files, trace = []\<rparr>),
      snd (step_spec hps ld f (snd (step_f0 f \<lparr>fs = files, trace = []\<rparr>))),
      snd (step_volume hps diff f (snd (step_spec hps ld f (snd (step_f0 f \<lparr>fs = files, trace = []\<rparr>)))))}"
  using assms unfolding process_one_steps Let_def by simp

lemma no_diff_events:
  assumes "\<not> diff"
  shows "set (trace (snd (process_one hps f diff mel ld rnd files)))
    \<subseteq> {Compute F0, Save F0 (f0_path f), Compute Spec, Save Spec (spec_path f)}
      \<union> (if vol_embedding hps then {Compute Volume, Save Volume (volume_path f)} else {})"
proof -
  let ?st0 = "\<lparr>fs = files, trace = []\<rparr>"
  let ?st1 = "snd (step_f0 f ?st0)"
  let ?st2 = "snd (step_spec hps ld f ?st1)"
  let ?st3 = "snd (step_volume hps diff f ?st2)"
  let ?S = "{Compute F0, Save F0 (f0_path f), Compute Spec, Save Spec (spec_path f)}
      \<union> (if vol_embedding hps then {Compute Volume, Save Volume (volume_path f)} else {})"
  have 0: "set (trace ?st0) \<subseteq> ?S" by simp
  have 1: "set (trace ?st1) \<subseteq> ?S"
    using step_f0_events [of f ?st0] by auto
  have 2: "set (trace ?st2) \<subseteq> ?S"
    using step_spec_events [of hps ld f ?st1] 1 by auto
  have 3: "set (trace ?st3) \<subseteq> ?S"
    using step_volume_events [of hps diff f ?st2] 2 assms by (auto split: if_splits)
  from process_one_final_no_diff [OF assms, of hps f mel ld rnd files]
  have "snd (process_one hps f diff mel ld rnd files) = ?st0
      \<or> snd (process_one hps f diff mel ld rnd files) = ?st1
      \<or> snd (process_one hps f diff mel ld rnd files) = ?st2
      \<or> snd (process_one hps f diff mel ld rnd files) = ?st3" by simp
  with 0 1 2 3 show ?thesis by (elim disjE) (simp_all only:)
qed

lemma no_diff_frame:
  assumes "\<not> diff" "\<not> vol_embedding hps" "p \<noteq> f0_path f" "p \<noteq> spec_path f"
  shows "fs (snd (process_one hps f diff mel ld rnd files)) p = files p"
proof -
  let ?st0 = "\<lparr>fs = files, trace = []\<rparr>"
  let ?st1 = "snd (step_f0 f ?st0)"
  let ?st2 = "snd (step_spec hps ld f ?st1)"
  let ?st3 = "snd (step_volume hps diff f ?st2)"
  have 1: "fs ?st1 p = files p" using assms by (simp add: step_f0_frame)
  have 2: "fs ?st2 p = files p" using assms 1 by (simp add: step_spec_frame)
  have 3: "fs ?st3 p = files p" using assms 2 by (simp add: step_volume_frame)
  from process_one_final_no_diff [OF assms(1), of hps f mel ld rnd files]
  have "snd (process_one hps f diff mel ld rnd files) = ?st0
      \<or> snd (process_one hps f diff mel ld rnd files) = ?st1
      \<or> snd (process_one hps f diff mel ld rnd files) = ?st2
      \<or> snd (process_one hps f diff mel ld rnd files) = ?st3" by simp
  with 1 2 3 show ?thesis by (elim disjE) simp_all
qed

lemma saved_paths_iff: "p \<in> set (saved_paths st) \<longleftrightarrow> (\<exists>k. Save k p \<in> set (trace st))"
  by (auto simp: saved_paths_def split: event.splits)

text \<open>
  Where the spectrogram step completes, a call with \<^verbatim>\<open>diff=True\<close> and
  \<^verbatim>\<open>mel_extractor=None\<close> ends in the \<open>NameError\<close> of the augmentation branch, whatever
  other artifact files exist.
\<close>

lemma name_error_after_spectrogram_step:
  assumes "loadable files f"
    and "files (spec_path f) \<noteq> None
      \<or> sr ld = sampling_rate hps \<and> files (dirname (spec_path f)) = Some Directory"
  shows "fst (process_one hps f True False ld rnd files) = Some NameError"
  using assms by (auto simp: process_one_error)

lemma name_error_wav_only_ending:
  assumes "loadable files f" "wav_only_ending f" "sr ld = sampling_rate hps"
  shows "fst (process_one hps f True False ld rnd files) = Some NameError"
proof -
  have "files (dirname (spec_path f)) = Some Directory"
    using assms(1) dirname_spec [OF assms(2)] by (simp add: loadable_def)
  with assms(1,3) show ?thesis by (intro name_error_after_spectrogram_step) simp_all
qed

text \<open>
  The augmentation parameters, in real arithmetic.
\<close>

lemma uniform_bounds:
  assumes "0 \<le> u" "u \<le> 1" "a \<le> b"
  shows "a \<le> uniform a b u" "uniform a b u \<le> b"
proof -
  have "0 \<le> (b - a) * u" using assms by simp
  then show "a \<le> uniform a b u" by (simp add: uniform_def)
  have "(b - a) * u \<le> (b - a) * 1" using assms by (intro mult_left_mono) simp_all
  then show "uniform a b u \<le> b" by (simp add: uniform_def)
qed

lemma max_amp_pos: "0 \<le> peak ld \<Longrightarrow> 0 < max_amp ld"
  by (simp add: max_amp_def add_nonneg_pos)

lemma max_shift_lower:
  assumes "0 \<le> peak ld" "max_amp ld \<le> 10"
  shows "- 1 \<le> max_shift ld"
proof -
  have pos: "0 < max_amp ld" using assms(1) by (rule max_amp_pos)
  have "1 / 10 \<le> 1 / max_amp ld" using pos assms(2) by (simp add: field_simps)
  then have "log 10 (1 / 10) \<le> log 10 (1 / max_amp ld)"
    using pos by (subst log_le_cancel_iff) simp_all
  moreover have "log 10 (1 / 10) = - 1"
    by (simp add: log_divide)
  ultimately show ?thesis by (simp add: max_shift_def)
qed

lemma scaled_peak_bound:
  assumes "0 \<le> peak ld" "log10_vol_shift ld rnd \<le> max_shift ld"
  shows "scaled_peak ld rnd < 1"
proof -
  have pos: "0 < max_amp ld" using assms(1) by (rule max_amp_pos)
  have "log10_vol_shift ld rnd \<le> log 10 (1 / max_amp ld)"
    using assms(2) by (simp add: max_shift_def)
  then have "10 powr log10_vol_shift ld rnd \<le> 10 powr log 10 (1 / max_amp ld)"
    by simp
  also have "\<dots> = 1 / max_amp ld" using pos by simp
  finally have "peak ld * 10 powr log10_vol_shift ld rnd \<le> peak ld * (1 / max_amp ld)"
    using assms(1) by (rule mult_left_mono)
  also have "\<dots> < 1" using pos by (simp add: max_amp_def field_simps)
  finally show ?thesis by (simp add: scaled_peak_def)
qed

section \<open>Exceptions\<close>



text \<open>
  Claim C9. The sample-rate check is cache-gated: for every input file whose spectrogram
  file already exists, \<^verbatim>\<open>process_one\<close> never raises the sample-rate \<open>ValueError\<close>,
  whatever the loaded rate and the target rate are.
\<close>

theorem cached_spec_no_value_error:
  "files (spec_path f) \<noteq> None \<Longrightarrow> fst (process_one hps f diff mel ld rnd files) \<noteq> Some ValueError"
  by (auto simp: process_one_error)

text \<open>
  With all artifacts of \<^verbatim>\<open>a.wav\<close> on disk and mismatching rates, no \<open>ValueError\<close>.
\<close>

theorem cached_spec_no_value_error_witness:
  "all_cached (spec_path ''spk/a.wav'') \<noteq> None \<and> sr audio_22k \<noteq> sampling_rate hps_44k
   \<and> fst (process_one hps_44k ''spk/a.wav'' True True audio_22k draws_mid all_cached) \<noteq> Some ValueError"
proof -
  have h: "all_cached (spec_path ''spk/a.wav'') \<noteq> None"
    by (simp add: all_cached_def spec_path_def)
  from cached_spec_no_value_error [of all_cached "''spk/a.wav''" hps_44k True True audio_22k draws_mid] h
  show ?thesis by (simp add: demo_defs)
qed

text \<open>
  Claim C8 says that a call with \<^verbatim>\<open>diff=True\<close> and \<^verbatim>\<open>mel_extractor=None\<close> ends in the
  \<open>NameError\<close> of the augmentation branch for every input file, whatever artifact files
  exist. The code departs from it for an input in a speaker directory whose name holds
  \<^verbatim>\<open>.wav\<close>: line 42 rewrites the directory name as well, the save of line 60 raises for
  the missing directory, and the call ends there with only the F0 file written.
\<close>

theorem name_error_preempted_by_save:
  "loadable dotted_dir ''x.wav/a.wav'' \<and> sr audio_44k = sampling_rate hps_44k
   \<and> spec_path ''x.wav/a.wav'' = ''x.spec.pt/a.spec.pt''
   \<and> fst (process_one hps_44k ''x.wav/a.wav'' True False audio_44k draws_mid dotted_dir)
       = Some SaveError
   \<and> fst (process_one hps_44k ''x.wav/a.wav'' True False audio_44k draws_mid dotted_dir)
       \<noteq> Some NameError
   \<and> saved_paths (snd (process_one hps_44k ''x.wav/a.wav'' True False audio_44k draws_mid dotted_dir))
       = [''x.wav/a.wav.f0.npy'']"
  by (simp add: run_defs demo_defs saved_paths_def)

section \<open>The cache\<close>

text \<open>
  Claim C3, as amended. For the F0/voicing, spectrogram, volume and mel steps the
  extraction runs only if the step's output file does not already exist. For every step,
  the augmented ones included, a file is saved only to the step's own path and only if that
  path did not exist. The two augmented extractions are outside the cache check: only
  their saves are gated.
\<close>

theorem process_one_cache_gates:
  "(\<forall>k \<in> {F0, Spec, Volume, Mel}.
       Compute k \<in> set (trace (snd (process_one hps f diff mel ld rnd files)))
         \<longrightarrow> files (artifact_path k f) = None)
   \<and> (\<forall>k p. Save k p \<in> set (trace (snd (process_one hps f diff mel ld rnd files)))
         \<longrightarrow> p = artifact_path k f \<and> files p = None)"
proof (intro conjI ballI allI impI)
  fix k assume "k \<in> {F0, Spec, Volume, Mel}"
    and "Compute k \<in> set (trace (snd (process_one hps f diff mel ld rnd files)))"
  with process_one_cache [of files f hps diff mel ld rnd]
  show "files (artifact_path k f) = None" by (intro cache_computes)
next
  fix k p assume s: "Save k p \<in> set (trace (snd (process_one hps f diff mel ld rnd files)))"
  from cache_saves [OF process_one_cache s]
  show "p = artifact_path k f" "files p = None" by blast+
qed

text \<open>
  With only the F0 file on disk the spectrogram is extracted and F0 is not.
\<close>

theorem process_one_cache_gates_witness:
  "Compute Spec \<in> set (trace (snd (process_one hps_44k ''spk/a.wav'' False False audio_44k draws_mid
       (only_input(''spk/a.wav.f0.npy'' \<mapsto> F0_uv)))))
   \<and> (only_input(''spk/a.wav.f0.npy'' \<mapsto> F0_uv)) (artifact_path Spec ''spk/a.wav'') = None
   \<and> Compute F0 \<notin> set (trace (snd (process_one hps_44k ''spk/a.wav'' False False audio_44k draws_mid
       (only_input(''spk/a.wav.f0.npy'' \<mapsto> F0_uv)))))"
proof -
  let ?files = "only_input(''spk/a.wav.f0.npy'' \<mapsto> F0_uv)"
  let ?st = "snd (process_one hps_44k ''spk/a.wav'' False False audio_44k draws_mid ?files)"
  have c: "Compute Spec \<in> set (trace ?st)"
    by (simp add: run_defs demo_defs)
  have n: "?files (artifact_path F0 ''spk/a.wav'') \<noteq> None" by (simp add: f0_path_def)
  from process_one_cache_gates [of hps_44k "''spk/a.wav''" False False audio_44k draws_mid ?files]
  have gates: "\<forall>k \<in> {F0, Spec, Volume, Mel}.
      Compute k \<in> set (trace ?st) \<longrightarrow> ?files (artifact_path k ''spk/a.wav'') = None"
    by (rule conjunct1)
  from gates have "Compute Spec \<in> set (trace ?st) \<longrightarrow> ?files (artifact_path Spec ''spk/a.wav'') = None"
    by (rule bspec) simp
  with c have 1: "?files (artifact_path Spec ''spk/a.wav'') = None" by (rule rev_mp)
  from gates have "Compute F0 \<in> set (trace ?st) \<longrightarrow> ?files (artifact_path F0 ''spk/a.wav'') = None"
    by (rule bspec) simp
  with n have 2: "Compute F0 \<notin> set (trace ?st)" by auto
  from c 1 2 show ?thesis by (intro conjI)
qed

text \<open>
  Claim C3 as stated fails: with all six files on disk, \<^verbatim>\<open>diff=True\<close> and a mel
  extractor, both augmented extractions still run.
\<close>

theorem augmentation_not_gated_counterexample:
  "all_cached (aug_mel_path ''spk/a.wav'') \<noteq> None \<and> all_cached (aug_vol_path ''spk/a.wav'') \<noteq> None
   \<and> Compute AugMel \<in> set (trace (snd (process_one hps_44k ''spk/a.wav'' True True audio_44k draws_mid all_cached)))
   \<and> Compute AugVol \<in> set (trace (snd (process_one hps_44k ''spk/a.wav'' True True audio_44k draws_mid all_cached)))"
  by (simp add: run_defs demo_defs)

text \<open>
  Claim C4. \<^verbatim>\<open>process_one\<close> is idempotent on the files it writes: if every artifact
  path of the filename exists, a run saves nothing and leaves the file system as it was;
  and a second run on the same filename, with the same arguments and any new random draws,
  started on the file system the first run left, saves nothing and leaves every file,
  content included, unchanged.
\<close>

theorem process_one_idempotent:
  "((\<forall>k \<in> set all_steps. files (artifact_path k f) \<noteq> None) \<longrightarrow>
      saved_paths (snd (process_one hps f diff mel ld rnd files)) = []
      \<and> fs (snd (process_one hps f diff mel ld rnd files)) = files)
   \<and> saved_paths (snd (process_one hps f diff mel ld rnd'
        (fs (snd (process_one hps f diff mel ld rnd files))))) = []
   \<and> fs (snd (process_one hps f diff mel ld rnd'
        (fs (snd (process_one hps f diff mel ld rnd files)))))
     = fs (snd (process_one hps f diff mel ld rnd files))"
proof -
  have "settled hps f diff mel ld files"
    if "\<forall>k \<in> set all_steps. files (artifact_path k f) \<noteq> None"
    using that by (auto simp: all_steps_def settled_def)
  then show ?thesis
    using settled_no_writes [of hps f diff mel ld files rnd]
      settled_no_writes [OF process_one_settles, of hps f diff mel ld rnd' rnd files]
    by blast
qed

text \<open>
  A run on a fully cached file, and a second run after a first run on a directory that
  held only the input.
\<close>

theorem process_one_idempotent_witness:
  "saved_paths (snd (process_one hps_44k ''spk/a.wav'' True True audio_44k draws_mid all_cached)) = []
   \<and> fs (snd (process_one hps_44k ''spk/a.wav'' True True audio_44k draws_mid all_cached)) = all_cached
   \<and> saved_paths (snd (process_one hps_44k ''spk/a.wav'' True True audio_44k draws_mid only_input))
       = [''spk/a.wav.f0.npy'', ''spk/a.spec.pt'', ''spk/a.wav.vol.npy'', ''spk/a.wav.mel.npy'',
          ''spk/a.wav.aug_mel.npy'', ''spk/a.wav.aug_vol.npy'']
   \<and> saved_paths (snd (process_one hps_44k ''spk/a.wav'' True True audio_44k \<lparr>u_vol = 0, u_key = 0\<rparr>
         (fs (snd (process_one hps_44k ''spk/a.wav'' True True audio_44k draws_mid only_input))))) = []"
proof -
  have h: "\<forall>k \<in> set all_steps. all_cached (artifact_path k ''spk/a.wav'') \<noteq> None"
    by (simp add: all_steps_def all_cached_def path_defs)
  have first: "saved_paths (snd (process_one hps_44k ''spk/a.wav'' True True audio_44k draws_mid only_input))
       = [''spk/a.wav.f0.npy'', ''spk/a.spec.pt'', ''spk/a.wav.vol.npy'', ''spk/a.wav.mel.npy'',
          ''spk/a.wav.aug_mel.npy'', ''spk/a.wav.aug_vol.npy'']"
    by (simp add: run_defs demo_defs saved_paths_def)
  from h first
    process_one_idempotent [of all_cached "''spk/a.wav''" hps_44k True True audio_44k draws_mid draws_mid]
    process_one_idempotent [of only_input "''spk/a.wav''" hps_44k True True audio_44k draws_mid
      "\<lparr>u_vol = 0, u_key = 0\<rparr>"]
  show ?thesis by simp
qed

section \<open>Which artifacts a call produces\<close>

text \<open>
  Claim C5, as amended. A call saves at most six artifact files. For an input audio file
  whose only \<^verbatim>\<open>.wav\<close> is its ending, with no artifact yet and loaded at the target rate,
  it extracts and saves between two and six of them, depending on the flags: F0/voicing and
  spectrogram always, volume when \<open>diff\<close> or \<open>vol_embedding\<close> is on, and mel, augmented mel
  and augmented volume when \<open>diff\<close> is on and a mel extractor is given.
\<close>

theorem process_one_artifact_count:
  "length (saved_paths (snd (process_one hps f diff mel ld rnd files))) \<le> 6
   \<and> (loadable files f \<and> wav_only_ending f
        \<and> (\<forall>k \<in> set all_steps. files (artifact_path k f) = None)
        \<and> sr ld = sampling_rate hps \<longrightarrow>
        saved_paths (snd (process_one hps f diff mel ld rnd files))
          = [f0_path f, spec_path f]
            @ (if diff \<or> vol_embedding hps then [volume_path f] else [])
            @ (if diff \<and> mel then [mel_path f, aug_mel_path f, aug_vol_path f] else [])
        \<and> computed_steps (snd (process_one hps f diff mel ld rnd files))
          = [F0, Spec] @ (if diff \<or> vol_embedding hps then [Volume] else [])
            @ (if diff \<and> mel then [Mel, AugMel, AugVol] else []))"
  using process_one_count [of hps f diff mel ld rnd files]
    fresh_run [of files f ld hps diff mel rnd]
  by blast

text \<open>
  Six files with \<open>diff\<close> and a mel extractor, three with only \<open>vol_embedding\<close>.
\<close>

theorem process_one_artifact_count_witness:
  "length (saved_paths (snd (process_one hps_44k ''spk/a.wav'' True True audio_44k draws_mid only_input))) = 6
   \<and> length (saved_paths (snd (process_one (hps_44k\<lparr>vol_embedding := True\<rparr>) ''spk/a.wav'' False False
        audio_44k draws_mid only_input))) = 3"
proof -
  have l: "loadable only_input ''spk/a.wav''" by (simp add: loadable_def only_input_def dirname_def)
  have w: "wav_only_ending ''spk/a.wav''" by (simp add: wav_only_ending_def suffix_def sublist_code)
  have h: "\<forall>k \<in> set all_steps. only_input (artifact_path k ''spk/a.wav'') = None"
    by (simp add: all_steps_def only_input_def path_defs)
  have r: "sr audio_44k = sampling_rate hps_44k"
    "sr audio_44k = sampling_rate (hps_44k\<lparr>vol_embedding := True\<rparr>)"
    by (simp_all add: demo_defs)
  from l w h r process_one_artifact_count [of hps_44k "''spk/a.wav''" True True audio_44k draws_mid only_input]
    process_one_artifact_count [of "hps_44k\<lparr>vol_embedding := True\<rparr>" "''spk/a.wav''" False False
      audio_44k draws_mid only_input]
  show ?thesis by simp
qed

text \<open>
  Claim C5 as stated fails: with \<open>diff\<close> and \<open>vol_embedding\<close> off, two artifacts are
  extracted and saved, not four.
\<close>

theorem two_artifacts_counterexample:
  "loadable only_input ''spk/a.wav'' \<and> sr audio_44k = sampling_rate hps_44k
   \<and> length (saved_paths (snd (process_one hps_44k ''spk/a.wav'' False False audio_44k draws_mid only_input))) = 2
   \<and> computed_steps (snd (process_one hps_44k ''spk/a.wav'' False False audio_44k draws_mid only_input))
       = [F0, Spec]"
  by (simp add: run_defs demo_defs saved_paths_def computed_steps_def)

text \<open>
  Claim C6 says that the spectrogram path is the filename with its \<^verbatim>\<open>.wav\<close> ending
  replaced by \<^verbatim>\<open>.spec.pt\<close>, and that distinct filenames ending in \<^verbatim>\<open>.wav\<close> yield
  distinct artifact paths. The code departs from it: line 42 replaces every \<^verbatim>\<open>.wav\<close> of
  the path, so \<^verbatim>\<open>a.wav.wav\<close> and \<^verbatim>\<open>a.spec.pt.wav\<close> share one spectrogram path, which is
  not the first name with its ending replaced, and after a run on the first file a run on
  the second finds that path on disk and extracts no spectrogram.
\<close>

theorem replace_rewrites_every_wav:
  "suffix ''.wav'' ''spk/a.wav.wav'' \<and> suffix ''.wav'' ''spk/a.spec.pt.wav''
   \<and> ''spk/a.wav.wav'' \<noteq> ''spk/a.spec.pt.wav''
   \<and> artifact_path Spec ''spk/a.wav.wav'' = ''spk/a.spec.pt.spec.pt''
   \<and> artifact_path Spec ''spk/a.spec.pt.wav'' = ''spk/a.spec.pt.spec.pt''
   \<and> artifact_path Spec ''spk/a.wav.wav'' \<noteq> ''spk/a.wav.spec.pt''
   \<and> fst (process_one hps_44k ''spk/a.spec.pt.wav'' False False audio_44k draws_mid
        (fs (snd (process_one hps_44k ''spk/a.wav.wav'' False False audio_44k draws_mid two_inputs))))
       = None
   \<and> computed_steps (snd (process_one hps_44k ''spk/a.spec.pt.wav'' False False audio_44k draws_mid
        (fs (snd (process_one hps_44k ''spk/a.wav.wav'' False False audio_44k draws_mid two_inputs)))))
       = [F0]"
  by (simp add: suffix_def run_defs demo_defs computed_steps_def)

text \<open>
  Claim C7. The mel and the two augmented artifacts are extracted or saved only when
  \<open>diff\<close> is on, the volume artifact only when \<open>diff\<close> or \<open>vol_embedding\<close> is on. With both
  off, the only paths that may be saved are the F0/voicing file and the spectrogram file,
  and every other path of the file system is as before the call.
\<close>

theorem process_one_frame:
  "(\<forall>k. (Compute k \<in> set (trace (snd (process_one hps f diff mel ld rnd files)))
          \<or> (\<exists>p. Save k p \<in> set (trace (snd (process_one hps f diff mel ld rnd files)))))
        \<longrightarrow> (k \<in> {Mel, AugMel, AugVol} \<longrightarrow> diff) \<and> (k = Volume \<longrightarrow> diff \<or> vol_embedding hps))
   \<and> (\<not> diff \<and> \<not> vol_embedding hps \<longrightarrow>
        set (saved_paths (snd (process_one hps f diff mel ld rnd files))) \<subseteq> {f0_path f, spec_path f}
        \<and> (\<forall>p. p \<noteq> f0_path f \<and> p \<noteq> spec_path f \<longrightarrow>
              fs (snd (process_one hps f diff mel ld rnd files)) p = files p))"
proof (cases diff)
  case True
  then show ?thesis by simp
next
  case False
  from no_diff_events [OF False, of hps f mel ld rnd files]
  have ev: "\<forall>k. (Compute k \<in> set (trace (snd (process_one hps f diff mel ld rnd files)))
          \<or> (\<exists>p. Save k p \<in> set (trace (snd (process_one hps f diff mel ld rnd files)))))
        \<longrightarrow> (k \<in> {Mel, AugMel, AugVol} \<longrightarrow> diff) \<and> (k = Volume \<longrightarrow> diff \<or> vol_embedding hps)"
    by (auto split: if_splits)
  have "set (saved_paths (snd (process_one hps f diff mel ld rnd files))) \<subseteq> {f0_path f, spec_path f}"
    if "\<not> vol_embedding hps"
    using no_diff_events [OF False, of hps f mel ld rnd files] that
    by (auto simp: saved_paths_iff)
  moreover have "fs (snd (process_one hps f diff mel ld rnd files)) p = files p"
    if "\<not> vol_embedding hps" "p \<noteq> f0_path f" "p \<noteq> spec_path f" for p
    using False that by (rule no_diff_frame)
  ultimately show ?thesis using ev by blast
qed

text \<open>
  A call with both flags off on a directory that holds only the input.
\<close>

theorem process_one_frame_witness:
  "set (saved_paths (snd (process_one hps_44k ''spk/a.wav'' False False audio_44k draws_mid only_input)))
     \<subseteq> {''spk/a.wav.f0.npy'', ''spk/a.spec.pt''}
   \<and> fs (snd (process_one hps_44k ''spk/a.wav'' False False audio_44k draws_mid only_input))
        ''spk/a.wav.vol.npy'' = None
   \<and> Save Mel ''spk/a.wav.mel.npy'' \<notin> set (trace (snd (process_one hps_44k ''spk/a.wav'' False False
        audio_44k draws_mid only_input)))"
proof -
  have "\<not> False \<and> \<not> vol_embedding hps_44k" by (simp add: hps_44k_def)
  with process_one_frame [of hps_44k "''spk/a.wav''" False False audio_44k draws_mid only_input]
  show ?thesis by (auto simp: path_defs only_input_def)
qed

section \<open>Augmentation parameters\<close>

text \<open>
  Claim C10, as amended, in real arithmetic. For audio whose peak amplitude plus \<open>1e-5\<close>
  is at most 10 (any audio normalised to a peak of at most 1 is), and draws of
  \<^verbatim>\<open>random()\<close> in \<open>[0, 1)\<close>, the pitch shift lies in \<open>[-5, 5]\<close>, the loudness shift lies in
  \<open>[-1, min(1, log10(1/max_amp))]\<close>, and the peak amplitude of the scaled audio does not
  exceed 1.
\<close>

theorem augmentation_bounds:
  assumes "0 \<le> peak ld" "max_amp ld \<le> 10"
    and "0 \<le> u_vol rnd" "u_vol rnd < 1" "0 \<le> u_key rnd" "u_key rnd < 1"
  shows "- 5 \<le> keyshift rnd \<and> keyshift rnd \<le> 5
    \<and> - 1 \<le> log10_vol_shift ld rnd
    \<and> log10_vol_shift ld rnd \<le> min 1 (log 10 (1 / max_amp ld))
    \<and> scaled_peak ld rnd \<le> 1"
proof -
  have k: "- 5 \<le> keyshift rnd" "keyshift rnd \<le> 5"
    using uniform_bounds [of "u_key rnd" "- 5" 5] assms by (simp_all add: keyshift_def)
  have lo: "- 1 \<le> max_shift ld" using assms(1,2) by (rule max_shift_lower)
  have v: "- 1 \<le> log10_vol_shift ld rnd" "log10_vol_shift ld rnd \<le> max_shift ld"
    using uniform_bounds [of "u_vol rnd" "- 1" "max_shift ld"] assms lo
    by (simp_all add: log10_vol_shift_def)
  from scaled_peak_bound [OF assms(1) v(2)] k v show ?thesis
    by (simp add: max_shift_def)
qed

text \<open>
  Audio with peak one half and both draws at one half.
\<close>

theorem augmentation_bounds_witness:
  "- 5 \<le> keyshift \<lparr>u_vol = 1 / 2, u_key = 1 / 2\<rparr>
   \<and> keyshift \<lparr>u_vol = 1 / 2, u_key = 1 / 2\<rparr> \<le> 5
   \<and> - 1 \<le> log10_vol_shift \<lparr>sr = 44100, peak = 1 / 2\<rparr> \<lparr>u_vol = 1 / 2, u_key = 1 / 2\<rparr>
   \<and> scaled_peak \<lparr>sr = 44100, peak = 1 / 2\<rparr> \<lparr>u_vol = 1 / 2, u_key = 1 / 2\<rparr> \<le> 1"
  using augmentation_bounds [of "\<lparr>sr = 44100, peak = 1 / 2\<rparr>" "\<lparr>u_vol = 1 / 2, u_key = 1 / 2\<rparr>"]
  by (simp add: max_amp_def)

text \<open>
  Claim C10 as stated fails for audio with a peak above 10, which a floating-point file
  can hold: at peak 20 the upper end \<open>log10(1/max_amp)\<close> is below \<open>-1\<close>, the draw 0 gives
  the shift \<open>-1\<close> outside the stated interval, and the scaled peak is 2.
\<close>

theorem loud_audio_counterexample:
  "\<not> (log10_vol_shift \<lparr>sr = 44100, peak = 20\<rparr> \<lparr>u_vol = 0, u_key = 0\<rparr>
         \<le> min 1 (log 10 (1 / max_amp \<lparr>sr = 44100, peak = 20\<rparr>)))
   \<and> \<not> (scaled_peak \<lparr>sr = 44100, peak = 20\<rparr> \<lparr>u_vol = 0, u_key = 0\<rparr> \<le> 1)"
proof -
  have "log 10 (1 / max_amp \<lparr>sr = 44100, peak = 20\<rparr>) < log 10 (1 / 10)"
    by (subst log_less_cancel_iff) (simp_all add: max_amp_def)
  moreover have "log 10 (1 / 10) = - 1" by (simp add: log_divide)
  ultimately have "min 1 (log 10 (1 / max_amp \<lparr>sr = 44100, peak = 20\<rparr>)) < - 1" by simp
  moreover have "log10_vol_shift \<lparr>sr = 44100, peak = 20\<rparr> \<lparr>u_vol = 0, u_key = 0\<rparr> = - 1"
    by (simp add: log10_vol_shift_def uniform_def)
  moreover have "scaled_peak \<lparr>sr = 44100, peak = 20\<rparr> \<lparr>u_vol = 0, u_key = 0\<rparr> = 2"
    by (simp add: scaled_peak_def log10_vol_shift_def uniform_def powr_minus)
  ultimately show ?thesis by simp
qed

end
